theory Spec2Isabelle
  imports Main "HOL-Library.Multiset"
begin

section \<open>Data model\<close>

text \<open>
  The list of \<^verbatim>\<open>src/SENG265/A3/list.c\<close> is a chain of heap cells linked by
  pointers. A pointer is an optional address (\<open>None\<close> is \<^verbatim>\<open>NULL\<close>); the heap is
  an arena of node cells and an arena of song records, an address being an index.
\<close>

type_synonym addr = nat
type_synonym ptr = "addr option"

text \<open>
  Modelled from the spec: \<^verbatim>\<open>list.h\<close> is not part of the sources. The spec gives a
  song an \<^verbatim>\<open>artist\<close> text, a \<^verbatim>\<open>song\<close> title text and a numeric \<^verbatim>\<open>comparator\<close>;
  a node holds a pointer to its song and a pointer to the next node
  (the C fields \<^verbatim>\<open>song\<close> and \<^verbatim>\<open>next\<close>). The comparator is only ever compared, never
  computed with, so it is an integer here, of any width; the two texts are values.
\<close>

record Song =
  artist :: string
  song :: string
  comparator :: int

record node_t =
  node_song :: ptr
  node_next :: ptr

record heap =
  nodes :: "node_t list"
  songs :: "Song list"

text \<open>
  What C leaves undefined is a value of the model: reading or writing through
  \<^verbatim>\<open>NULL\<close>, through an address outside the arena, and a failed \<^verbatim>\<open>assert\<close>.
\<close>

datatype fault = NullDeref | InvalidPtr | AssertFail

definition bnd :: "fault + 'a \<Rightarrow> ('a \<Rightarrow> fault + 'b) \<Rightarrow> fault + 'b" where
  "bnd m f = (case m of Inl e \<Rightarrow> Inl e | Inr v \<Rightarrow> f v)"

definition rd_node :: "heap \<Rightarrow> ptr \<Rightarrow> fault + node_t" where
  "rd_node h p =
     (case p of
        None \<Rightarrow> Inl NullDeref
      | Some a \<Rightarrow> if a < length (nodes h) then Inr (nodes h ! a) else Inl InvalidPtr)"

text \<open>\<^verbatim>\<open>p->next\<close>\<close>

definition rd_next :: "heap \<Rightarrow> ptr \<Rightarrow> fault + ptr" where
  "rd_next h p = bnd (rd_node h p) (\<lambda>n. Inr (node_next n))"

text \<open>\<^verbatim>\<open>*(p->song)\<close>, the record that \<^verbatim>\<open>p->song->comparator\<close> and the like read.\<close>

definition rd_song :: "heap \<Rightarrow> ptr \<Rightarrow> fault + Song" where
  "rd_song h p =
     bnd (rd_node h p) (\<lambda>n.
       case node_song n of
         None \<Rightarrow> Inl NullDeref
       | Some s \<Rightarrow> if s < length (songs h) then Inr (songs h ! s) else Inl InvalidPtr)"

text \<open>\<^verbatim>\<open>p->next = q\<close>\<close>

definition set_next :: "heap \<Rightarrow> addr \<Rightarrow> ptr \<Rightarrow> heap" where
  "set_next h a q = h\<lparr>nodes := (nodes h)[a := (nodes h ! a)\<lparr>node_next := q\<rparr>]\<rparr>"

definition wr_next :: "heap \<Rightarrow> ptr \<Rightarrow> ptr \<Rightarrow> fault + heap" where
  "wr_next h p q =
     (case p of
        None \<Rightarrow> Inl NullDeref
      | Some a \<Rightarrow> if a < length (nodes h) then Inr (set_next h a q) else Inl InvalidPtr)"

text \<open>
  The C library's \<^verbatim>\<open>strcmp\<close>: bytes compared as unsigned values, the shorter string
  first when one is a prefix of the other. Only the sign of the result is specified by C,
  and only the sign is used by the code; the model returns \<open>-1\<close>, \<open>0\<close> or \<open>1\<close>.
\<close>

fun strcmp :: "string \<Rightarrow> string \<Rightarrow> int" where
  "strcmp [] [] = 0"
| "strcmp [] (y # ys) = - 1"
| "strcmp (x # xs) [] = 1"
| "strcmp (x # xs) (y # ys) =
     (if (of_char x :: nat) < of_char y then - 1
      else if (of_char y :: nat) < of_char x then 1
      else strcmp xs ys)"

section \<open>The operations of list.c\<close>

text \<open>
  Modelled from the spec: \<^verbatim>\<open>emalloc\<close> (\<^verbatim>\<open>emalloc.h\<close>) is not part of the sources; the
  spec makes it allocate or terminate the process. Here it always succeeds and returns
  the next unused cell of the arena.
\<close>

definition new_node :: "heap \<Rightarrow> ptr \<Rightarrow> fault + heap \<times> ptr" where
  "new_node h val =
     (if val = None then Inl AssertFail
      else Inr (h\<lparr>nodes := nodes h @ [\<lparr>node_song = val, node_next = None\<rparr>]\<rparr>,
                Some (length (nodes h))))"

definition add_front :: "heap \<Rightarrow> ptr \<Rightarrow> ptr \<Rightarrow> fault + heap \<times> ptr" where
  "add_front h list new = bnd (wr_next h new list) (\<lambda>h1. Inr (h1, new))"

text \<open>The \<^verbatim>\<open>for\<close> loop of \<^verbatim>\<open>add_end\<close>; it does not return on a cyclic chain.\<close>

partial_function (option) add_end_walk :: "heap \<Rightarrow> ptr \<Rightarrow> (fault + ptr) option" where
  "add_end_walk h currp =
     (case rd_next h currp of
        Inl e \<Rightarrow> Some (Inl e)
      | Inr nx \<Rightarrow> if nx \<noteq> None then add_end_walk h nx else Some (Inr currp))"

declare add_end_walk.simps [code]

definition add_end :: "heap \<Rightarrow> ptr \<Rightarrow> ptr \<Rightarrow> (fault + heap \<times> ptr) option" where
  "add_end h list new =
     (if list = None
      then Some (bnd (wr_next h new None) (\<lambda>h1. Inr (h1, new)))
      else
        case add_end_walk h list of
          None \<Rightarrow> None
        | Some (Inl e) \<Rightarrow> Some (Inl e)
        | Some (Inr currp) \<Rightarrow>
            Some (bnd (wr_next h currp new) (\<lambda>h1.
                  bnd (wr_next h1 new None) (\<lambda>h2. Inr (h2, list)))))"

text \<open>
  The three \<^verbatim>\<open>while\<close> loops of \<^verbatim>\<open>add_inorder\<close>, each returning the final
  \<^verbatim>\<open>(prev, cur)\<close>. The first is the loop of the equal-to-head branch, whose condition
  reads \<^verbatim>\<open>cur->song\<close> without testing \<^verbatim>\<open>cur\<close>; the other two are the loops of the
  last branch.
\<close>

partial_function (option) scan_eq_head ::
    "heap \<Rightarrow> ptr \<Rightarrow> ptr \<Rightarrow> ptr \<Rightarrow> (fault + ptr \<times> ptr) option" where
  "scan_eq_head h new prev cur =
     (case rd_song h new of
        Inl e \<Rightarrow> Some (Inl e)
      | Inr ns \<Rightarrow>
         (case rd_song h cur of
            Inl e \<Rightarrow> Some (Inl e)
          | Inr cs \<Rightarrow>
              if comparator ns = comparator cs \<and> strcmp (song ns) (song cs) < 0
              then (case rd_next h prev of
                      Inl e \<Rightarrow> Some (Inl e)
                    | Inr prev1 \<Rightarrow>
                       (case rd_next h cur of
                          Inl e \<Rightarrow> Some (Inl e)
                        | Inr cur1 \<Rightarrow> scan_eq_head h new prev1 cur1))
              else Some (Inr (prev, cur))))"

declare scan_eq_head.simps [code]

partial_function (option) scan_lt ::
    "heap \<Rightarrow> ptr \<Rightarrow> ptr \<Rightarrow> ptr \<Rightarrow> (fault + ptr \<times> ptr) option" where
  "scan_lt h new prev cur =
     (if cur = None then Some (Inr (prev, cur))
      else
        case rd_song h new of
          Inl e \<Rightarrow> Some (Inl e)
        | Inr ns \<Rightarrow>
           (case rd_song h cur of
              Inl e \<Rightarrow> Some (Inl e)
            | Inr cs \<Rightarrow>
                if comparator ns < comparator cs
                then (case rd_next h cur of
                        Inl e \<Rightarrow> Some (Inl e)
                      | Inr cur1 \<Rightarrow>
                         (case rd_next h prev of
                            Inl e \<Rightarrow> Some (Inl e)
                          | Inr prev1 \<Rightarrow> scan_lt h new prev1 cur1))
                else Some (Inr (prev, cur))))"

declare scan_lt.simps [code]

partial_function (option) scan_eq ::
    "heap \<Rightarrow> ptr \<Rightarrow> ptr \<Rightarrow> ptr \<Rightarrow> (fault + ptr \<times> ptr) option" where
  "scan_eq h new prev cur =
     (if cur = None then Some (Inr (prev, cur))
      else
        case rd_song h new of
          Inl e \<Rightarrow> Some (Inl e)
        | Inr ns \<Rightarrow>
           (case rd_song h cur of
              Inl e \<Rightarrow> Some (Inl e)
            | Inr cs \<Rightarrow>
                if comparator ns = comparator cs \<and> strcmp (song ns) (song cs) < 0
                then (case rd_next h prev of
                        Inl e \<Rightarrow> Some (Inl e)
                      | Inr prev1 \<Rightarrow>
                         (case rd_next h cur of
                            Inl e \<Rightarrow> Some (Inl e)
                          | Inr cur1 \<Rightarrow> scan_eq h new prev1 cur1))
                else Some (Inr (prev, cur))))"

declare scan_eq.simps [code]

text \<open>\<^verbatim>\<open>prev->next = new; new->next = cur; return list;\<close>\<close>

definition link_between :: "heap \<Rightarrow> ptr \<Rightarrow> ptr \<Rightarrow> ptr \<Rightarrow> ptr \<Rightarrow> fault + heap \<times> ptr" where
  "link_between h list new prev cur =
     bnd (wr_next h prev new) (\<lambda>h1.
     bnd (wr_next h1 new cur) (\<lambda>h2. Inr (h2, list)))"

text \<open>The branch \<^verbatim>\<open>list->next == NULL\<close>: one node, ties decided on the artist.\<close>

definition add_inorder_single :: "heap \<Rightarrow> ptr \<Rightarrow> ptr \<Rightarrow> fault + heap \<times> ptr" where
  "add_inorder_single h list new =
     bnd (rd_song h list) (\<lambda>ls.
     bnd (rd_song h new) (\<lambda>ns.
       if comparator ls > comparator ns
       then bnd (wr_next h list new) (\<lambda>h1. Inr (h1, list))
       else if comparator ls < comparator ns
       then bnd (wr_next h new list) (\<lambda>h1. Inr (h1, new))
       else if strcmp (artist ls) (artist ns) < 0
       then bnd (wr_next h list new) (\<lambda>h1. Inr (h1, list))
       else bnd (wr_next h new list) (\<lambda>h1. Inr (h1, new))))"

text \<open>The \<^verbatim>\<open>else\<close> branch: two nodes or more, \<^verbatim>\<open>prev = list\<close>, \<^verbatim>\<open>cur = list->next\<close>.\<close>

definition add_inorder_general ::
    "heap \<Rightarrow> ptr \<Rightarrow> ptr \<Rightarrow> ptr \<Rightarrow> (fault + heap \<times> ptr) option" where
  "add_inorder_general h list new cur =
     (case rd_song h new of
        Inl e \<Rightarrow> Some (Inl e)
      | Inr ns \<Rightarrow>
         (case rd_song h list of
            Inl e \<Rightarrow> Some (Inl e)
          | Inr ps \<Rightarrow>
              if comparator ns > comparator ps
              then Some (bnd (wr_next h new list) (\<lambda>h1. Inr (h1, new)))
              else if comparator ns = comparator ps
              then
                if strcmp (song ns) (song ps) > 0
                then Some (bnd (wr_next h new list) (\<lambda>h1. Inr (h1, new)))
                else
                  (case scan_eq_head h new list cur of
                     None \<Rightarrow> None
                   | Some (Inl e) \<Rightarrow> Some (Inl e)
                   | Some (Inr (prev1, cur1)) \<Rightarrow> Some (link_between h list new prev1 cur1))
              else
                (case scan_lt h new list cur of
                   None \<Rightarrow> None
                 | Some (Inl e) \<Rightarrow> Some (Inl e)
                 | Some (Inr (prev1, cur1)) \<Rightarrow>
                    (case scan_eq h new prev1 cur1 of
                       None \<Rightarrow> None
                     | Some (Inl e) \<Rightarrow> Some (Inl e)
                     | Some (Inr (prev2, cur2)) \<Rightarrow>
                         Some (link_between h list new prev2 cur2)))))"

definition add_inorder :: "heap \<Rightarrow> ptr \<Rightarrow> ptr \<Rightarrow> (fault + heap \<times> ptr) option" where
  "add_inorder h list new =
     (if list = None then Some (Inr (h, new))
      else
        case rd_next h list of
          Inl e \<Rightarrow> Some (Inl e)
        | Inr nx \<Rightarrow>
            if nx = None then Some (add_inorder_single h list new)
            else add_inorder_general h list new nx)"

definition peek_front :: "heap \<Rightarrow> ptr \<Rightarrow> fault + heap \<times> ptr" where
  "peek_front h list = Inr (h, list)"

definition remove_front :: "heap \<Rightarrow> ptr \<Rightarrow> fault + heap \<times> ptr" where
  "remove_front h list =
     (if list = None then Inr (h, None)
      else bnd (rd_next h list) (\<lambda>nx. Inr (h, nx)))"

text \<open>
  \<^verbatim>\<open>apply\<close>: the visitor is any function of the node, the context and the whole
  program state (the heap and whatever else the visitor can reach); its next-link is read
  after the call, in the state the visitor left.
\<close>

partial_function (option) apply_list ::
    "(ptr \<Rightarrow> 'arg \<Rightarrow> heap \<times> 'w \<Rightarrow> heap \<times> 'w) \<Rightarrow> 'arg \<Rightarrow> ptr \<Rightarrow> heap \<times> 'w
      \<Rightarrow> (fault + heap \<times> 'w) option" where
  "apply_list fn arg list s =
     (if list = None then Some (Inr s)
      else
        case rd_next (fst (fn list arg s)) list of
          Inl e \<Rightarrow> Some (Inl e)
        | Inr nx \<Rightarrow> apply_list fn arg nx (fn list arg s))"

declare apply_list.simps [code]

section \<open>Reading a chain off the heap\<close>

text \<open>
  \<open>chain h p as\<close>: following next-links from \<open>p\<close> visits exactly the cells \<open>as\<close>,
  in this order, and then reaches \<^verbatim>\<open>NULL\<close>. \<open>clist h p xs\<close> says the same of the
  addresses of \<open>xs\<close> and, in addition, that each cell's song can be read and is the one
  paired with the address.
\<close>

fun chain :: "heap \<Rightarrow> ptr \<Rightarrow> addr list \<Rightarrow> bool" where
  "chain h p [] = (p = None)"
| "chain h p (a # as) = (p = Some a \<and> a < length (nodes h) \<and> chain h (node_next (nodes h ! a)) as)"

definition head_ptr :: "addr list \<Rightarrow> ptr" where
  "head_ptr as = (case as of [] \<Rightarrow> None | a # _ \<Rightarrow> Some a)"

definition clist :: "heap \<Rightarrow> ptr \<Rightarrow> (addr \<times> Song) list \<Rightarrow> bool" where
  "clist h p xs = (chain h p (map fst xs) \<and> list_all (\<lambda>x. rd_song h (Some (fst x)) = Inr (snd x)) xs)"

section \<open>A caller that only inserts in order\<close>

text \<open>
  The list built from the given song pointers by
  \<^verbatim>\<open>list = add_inorder(list, new_node(val))\<close>, one pointer after the other.
\<close>

fun add_inorder_all :: "heap \<Rightarrow> ptr \<Rightarrow> ptr list \<Rightarrow> (fault + heap \<times> ptr) option" where
  "add_inorder_all h list [] = Some (Inr (h, list))"
| "add_inorder_all h list (v # vs) =
     (case new_node h v of
        Inl e \<Rightarrow> Some (Inl e)
      | Inr (h1, n) \<Rightarrow>
         (case add_inorder h1 list n of
            None \<Rightarrow> None
          | Some (Inl e) \<Rightarrow> Some (Inl e)
          | Some (Inr (h2, list2)) \<Rightarrow> add_inorder_all h2 list2 vs))"

section \<open>Orders on songs\<close>

text \<open>
  The order of the spec: comparator descending, then title ascending. The order of the
  comment that heads \<^verbatim>\<open>add_inorder\<close> (``from greatest to least comparator then reverse
  alphabetically''): comparator descending, then title descending. And the comparator
  alone.
\<close>

definition spec_before :: "Song \<Rightarrow> Song \<Rightarrow> bool" where
  "spec_before x y =
     (comparator x > comparator y \<or> (comparator x = comparator y \<and> strcmp (song x) (song y) \<le> 0))"

definition doc_before :: "Song \<Rightarrow> Song \<Rightarrow> bool" where
  "doc_before x y =
     (comparator x > comparator y \<or> (comparator x = comparator y \<and> strcmp (song x) (song y) \<ge> 0))"

definition cmp_before :: "Song \<Rightarrow> Song \<Rightarrow> bool" where
  "cmp_before x y = (comparator x \<ge> comparator y)"

section \<open>The insertion on the list of cells\<close>

text \<open>
  What \<^verbatim>\<open>add_inorder\<close> does to the sequence of cells, branch by branch; \<open>None\<close> where
  the loop of the equal-to-head branch runs off the end of the chain. The conditions are
  those of the loops at lines 139 and 131/143.
\<close>

definition lt_new :: "Song \<Rightarrow> 'a \<times> Song \<Rightarrow> bool" where
  "lt_new ns x = (comparator ns < comparator (snd x))"

definition eq_new :: "Song \<Rightarrow> 'a \<times> Song \<Rightarrow> bool" where
  "eq_new ns x = (comparator ns = comparator (snd x) \<and> strcmp (song ns) (song (snd x)) < 0)"

fun ins_inorder :: "'a \<times> Song \<Rightarrow> ('a \<times> Song) list \<Rightarrow> ('a \<times> Song) list option" where
  "ins_inorder n [] = Some [n]"
| "ins_inorder n [x] =
     (if comparator (snd x) > comparator (snd n) then Some [x, n]
      else if comparator (snd x) < comparator (snd n) then Some [n, x]
      else if strcmp (artist (snd x)) (artist (snd n)) < 0 then Some [x, n]
      else Some [n, x])"
| "ins_inorder n (x # y # ys) =
     (if comparator (snd n) > comparator (snd x) then Some (n # x # y # ys)
      else if comparator (snd n) = comparator (snd x)
      then
        if strcmp (song (snd n)) (song (snd x)) > 0 then Some (n # x # y # ys)
        else if dropWhile (eq_new (snd n)) (y # ys) = [] then None
        else Some (x # takeWhile (eq_new (snd n)) (y # ys) @ n # dropWhile (eq_new (snd n)) (y # ys))
      else
        Some (x # takeWhile (lt_new (snd n)) (y # ys)
                @ takeWhile (eq_new (snd n)) (dropWhile (lt_new (snd n)) (y # ys))
                @ n # dropWhile (eq_new (snd n)) (dropWhile (lt_new (snd n)) (y # ys))))"

section \<open>A visitor that records its calls\<close>

definition log_visit :: "ptr \<Rightarrow> 'arg \<Rightarrow> heap \<times> (ptr \<times> 'arg) list \<Rightarrow> heap \<times> (ptr \<times> 'arg) list" where
  "log_visit p arg s = (fst s, snd s @ [(p, arg)])"

text \<open>
  How a call of \<^verbatim>\<open>add_inorder\<close> on heap \<open>h\<close> relates to the insertion on the list of
  cells: both fail, or the call returns a heap whose chain is the new list, with the songs
  untouched.
\<close>

definition refines ::
    "heap \<Rightarrow> (fault + heap \<times> ptr) option \<Rightarrow> (addr \<times> Song) list option \<Rightarrow> bool" where
  "refines h r ys =
     (case ys of
        None \<Rightarrow> r = Some (Inl NullDeref)
      | Some zs \<Rightarrow> (\<exists>h' list'. r = Some (Inr (h', list')) \<and> clist h' list' zs \<and> songs h' = songs h))"

section \<open>Observing the result of a call\<close>

text \<open>
  \<open>song_chain h p ss\<close>: the chain from \<open>p\<close> carries exactly the songs \<open>ss\<close>, head to
  tail. \<open>returns_songs r ss\<close>: the call returned, and the chain it returned carries \<open>ss\<close>.
\<close>

fun song_chain :: "heap \<Rightarrow> ptr \<Rightarrow> Song list \<Rightarrow> bool" where
  "song_chain h p [] = (p = None)"
| "song_chain h p (s # ss) =
     (rd_song h p = Inr s \<and>
      (case rd_next h p of Inl e \<Rightarrow> False | Inr q \<Rightarrow> song_chain h q ss))"

definition returns_songs :: "(fault + heap \<times> ptr) option \<Rightarrow> Song list \<Rightarrow> bool" where
  "returns_songs r ss =
     (case r of Some (Inr (h, list)) \<Rightarrow> song_chain h list ss | _ \<Rightarrow> False)"

text \<open>
  The one-node branch of \<^verbatim>\<open>add_inorder\<close> decides a tie of comparators on the artist.
  Only the second insertion into an empty list can reach it; \<open>first_two_differ\<close> says that
  it meets no tie, and \<open>tie_free xs ss\<close> says so of the insertions \<open>ss\<close> still to come
  when the list holds \<open>xs\<close>.
\<close>

fun first_two_differ :: "Song list \<Rightarrow> bool" where
  "first_two_differ (a # b # ss) = (comparator a \<noteq> comparator b)"
| "first_two_differ _ = True"

fun tie_free :: "('a \<times> Song) list \<Rightarrow> Song list \<Rightarrow> bool" where
  "tie_free [] ss = first_two_differ ss"
| "tie_free [x] (s # ss) = (comparator (snd x) \<noteq> comparator s)"
| "tie_free _ _ = True"

text \<open>
  What a run of insertions of the songs \<open>ss\<close> into a list holding \<open>xs\<close> may end with: the
  null dereference of the equal-to-head loop, or a chain that holds the old and the new
  songs, sorted by comparator if \<open>xs\<close> was, and sorted by comparator and reverse title if
  \<open>xs\<close> was and no tie was decided on the artist.
\<close>

definition run_ok :: "(addr \<times> Song) list \<Rightarrow> Song list \<Rightarrow> fault + heap \<times> ptr \<Rightarrow> bool" where
  "run_ok xs ss r =
     (case r of
        Inl e \<Rightarrow> e = NullDeref
      | Inr (h1, list1) \<Rightarrow>
          (\<exists>ys. clist h1 list1 ys \<and>
                mset (map snd ys) = mset (map snd xs) + mset ss \<and>
                (sorted_wrt cmp_before (map snd xs) \<longrightarrow> sorted_wrt cmp_before (map snd ys)) \<and>
                (sorted_wrt doc_before (map snd xs) \<longrightarrow> tie_free xs ss
                   \<longrightarrow> sorted_wrt doc_before (map snd ys))))"

text \<open>Titles in descending order, whatever the comparators.\<close>

definition title_desc :: "Song \<Rightarrow> Song \<Rightarrow> bool" where
  "title_desc x y = (strcmp (song x) (song y) \<ge> 0)"

section \<open>Concrete heaps\<close>

definition mk_song :: "string \<Rightarrow> string \<Rightarrow> int \<Rightarrow> Song" where
  "mk_song a t c = \<lparr>artist = a, song = t, comparator = c\<rparr>"

definition mk_node :: "addr \<Rightarrow> ptr \<Rightarrow> node_t" where
  "mk_node s nx = \<lparr>node_song = Some s, node_next = nx\<rparr>"

text \<open>No node yet; songs for the run with comparators 5, 3, 8, 3 of the spec.\<close>

definition scenario_heap :: "string \<Rightarrow> string \<Rightarrow> string \<Rightarrow> string \<Rightarrow> string \<Rightarrow> string \<Rightarrow> heap" where
  "scenario_heap a1 a2 a3 a4 t1 t3 =
     \<lparr>nodes = [],
      songs = [mk_song a1 t1 5, mk_song a2 ''B'' 3, mk_song a3 t3 8, mk_song a4 ''A'' 3]\<rparr>"

text \<open>No node yet; three songs of comparator 1 with titles C, B, A and artists a, b, c.\<close>

definition tie_heap :: heap where
  "tie_heap =
     \<lparr>nodes = [],
      songs = [mk_song ''a'' ''C'' 1, mk_song ''b'' ''B'' 1, mk_song ''c'' ''A'' 1]\<rparr>"

text \<open>No node yet; comparators 1, 2, 1 with titles A, X, B.\<close>

definition mixed_heap :: heap where
  "mixed_heap =
     \<lparr>nodes = [],
      songs = [mk_song ''a'' ''A'' 1, mk_song ''b'' ''X'' 2, mk_song ''c'' ''B'' 1]\<rparr>"

text \<open>No node yet; comparators 2, 1, 2, 1 with titles A, B, C, D.\<close>

definition run_heap :: heap where
  "run_heap =
     \<lparr>nodes = [],
      songs = [mk_song ''a'' ''A'' 2, mk_song ''b'' ''B'' 1, mk_song ''c'' ''C'' 2,
               mk_song ''d'' ''D'' 1]\<rparr>"

text \<open>
  A chain of cells 0 and 1 and a loose cell 2, all of comparator 1: titles A, B and C for
  \<open>asc_heap\<close>, titles C, A and B for \<open>desc_heap\<close>.
\<close>

definition asc_heap :: heap where
  "asc_heap =
     \<lparr>nodes = [mk_node 0 (Some 1), mk_node 1 None, mk_node 2 None],
      songs = [mk_song ''a'' ''A'' 1, mk_song ''a'' ''B'' 1, mk_song ''a'' ''C'' 1]\<rparr>"

definition desc_heap :: heap where
  "desc_heap =
     \<lparr>nodes = [mk_node 0 (Some 1), mk_node 1 None, mk_node 2 None],
      songs = [mk_song ''a'' ''C'' 1, mk_song ''a'' ''A'' 1, mk_song ''a'' ''B'' 1]\<rparr>"

text \<open>
  One cell in the list and one loose cell, of the same comparator; the artists are in
  ascending order and the titles in descending order.
\<close>

definition single_heap :: heap where
  "single_heap =
     \<lparr>nodes = [mk_node 0 None, mk_node 1 None],
      songs = [mk_song ''a'' ''Z'' 1, mk_song ''b'' ''A'' 1]\<rparr>"

text \<open>The chain 2, 0, 1 and a loose cell 3; no song is read.\<close>

definition link_heap :: heap where
  "link_heap =
     \<lparr>nodes = [mk_node 0 (Some 1), mk_node 0 None, mk_node 0 (Some 0), mk_node 0 None],
      songs = []\<rparr>"

section \<open>Lemmas about reading and writing the heap\<close>

subsection \<open>Reads and writes\<close>

lemma rd_next_Some:
  "rd_next h (Some a) = (if a < length (nodes h) then Inr (node_next (nodes h ! a)) else Inl InvalidPtr)"
  by (simp add: rd_next_def rd_node_def bnd_def)

lemma rd_next_None: "rd_next h None = Inl NullDeref"
  by (simp add: rd_next_def rd_node_def bnd_def)

lemma rd_song_None: "rd_song h None = Inl NullDeref"
  by (simp add: rd_song_def rd_node_def bnd_def)

lemma wr_next_Some:
  "wr_next h (Some a) q = (if a < length (nodes h) then Inr (set_next h a q) else Inl InvalidPtr)"
  by (simp add: wr_next_def)

lemma length_set_next: "length (nodes (set_next h a q)) = length (nodes h)"
  by (simp add: set_next_def)

lemma songs_set_next: "songs (set_next h a q) = songs h"
  by (simp add: set_next_def)

lemma next_set_next:
  "b < length (nodes h) \<Longrightarrow>
   node_next (nodes (set_next h a q) ! b) = (if b = a then q else node_next (nodes h ! b))"
  by (simp add: set_next_def nth_list_update)

lemma node_song_set_next:
  "node_song (nodes (set_next h a q) ! b) = node_song (nodes h ! b)"
  by (cases "a < length (nodes h)") (simp_all add: set_next_def nth_list_update list_update_beyond)

lemma rd_song_set_next: "rd_song (set_next h a q) p = rd_song h p"
  by (cases p)
     (simp_all add: rd_song_def rd_node_def bnd_def length_set_next songs_set_next
        node_song_set_next split: option.split)

subsection \<open>Chains\<close>

lemma chain_head_ptr: "chain h p as \<Longrightarrow> p = head_ptr as"
  by (cases as) (simp_all add: head_ptr_def)

lemma chain_bound: "chain h p as \<Longrightarrow> a \<in> set as \<Longrightarrow> a < length (nodes h)"
  by (induction as arbitrary: p) auto

lemma chain_unique: "chain h p as \<Longrightarrow> chain h p bs \<Longrightarrow> as = bs"
proof (induction as arbitrary: p bs)
  case Nil
  then show ?case by (cases bs) simp_all
next
  case (Cons a as)
  then show ?case by (cases bs) auto
qed

lemma chain_suffix: "chain h p (xs @ ys) \<Longrightarrow> chain h (head_ptr ys) ys"
proof (induction xs arbitrary: p)
  case Nil
  then show ?case using chain_head_ptr by fastforce
next
  case (Cons x xs)
  then show ?case by auto
qed

lemma chain_head_notin_tail:
  assumes "chain h p (a # as)" shows "a \<notin> set as"
proof
  assume "a \<in> set as"
  then obtain ys zs where as: "as = ys @ a # zs"
    by (auto simp: in_set_conv_decomp)
  have "chain h (head_ptr (a # zs)) (a # zs)"
    using chain_suffix [of h p "a # ys" "a # zs"] assms as by simp
  moreover have "p = Some a" using assms by simp
  ultimately have "chain h p (a # zs)" by (simp add: head_ptr_def)
  with assms have "a # as = a # zs" by (rule chain_unique)
  with as show False by simp
qed

lemma chain_distinct: "chain h p as \<Longrightarrow> distinct as"
proof (induction as arbitrary: p)
  case Nil
  then show ?case by simp
next
  case (Cons a as)
  from Cons.prems have "a \<notin> set as" by (rule chain_head_notin_tail)
  moreover from Cons.prems have "chain h (node_next (nodes h ! a)) as" by simp
  then have "distinct as" by (rule Cons.IH)
  ultimately show ?case by simp
qed

lemma chain_set_next_notin:
  "a \<notin> set as \<Longrightarrow> chain (set_next h a q) p as = chain h p as"
proof (induction as arbitrary: p)
  case Nil
  show ?case by simp
next
  case (Cons x as)
  then have ih: "\<And>r. chain (set_next h a q) r as = chain h r as" and "x \<noteq> a"
    by auto
  then show ?case
    by (cases "x < length (nodes h)") (simp_all add: length_set_next next_set_next)
qed

lemma chain_last_next:
  "chain h p (xs @ ys) \<Longrightarrow> xs \<noteq> [] \<Longrightarrow> rd_next h (Some (last xs)) = Inr (head_ptr ys)"
proof (induction xs arbitrary: p)
  case Nil
  then show ?case by simp
next
  case (Cons x xs)
  show ?case
  proof (cases "xs = []")
    case True
    with Cons.prems have "x < length (nodes h)" and "chain h (node_next (nodes h ! x)) ys"
      by simp_all
    then show ?thesis using True chain_head_ptr [of h _ ys] by (simp add: rd_next_Some)
  next
    case False
    from Cons.prems have "chain h (node_next (nodes h ! x)) (xs @ ys)" by simp
    from Cons.IH [OF this False] False show ?thesis by simp
  qed
qed

lemma chain_link:
  assumes "chain h p (xs @ ys)" and "xs \<noteq> []" and "n \<notin> set (xs @ ys)" and "n < length (nodes h)"
  shows "chain (set_next (set_next h (last xs) (Some n)) n (head_ptr ys)) p (xs @ n # ys)"
  using assms
proof (induction xs arbitrary: p)
  case Nil
  then show ?case by simp
next
  case (Cons x xs)
  let ?h1 = "set_next h (last (x # xs)) (Some n)"
  let ?h2 = "set_next ?h1 n (head_ptr ys)"
  from Cons.prems have d: "distinct ((x # xs) @ ys)" by (metis chain_distinct)
  from Cons.prems have px: "p = Some x" and xb: "x < length (nodes h)"
    and tl: "chain h (node_next (nodes h ! x)) (xs @ ys)" and xn: "x \<noteq> n" by auto
  show ?case
  proof (cases "xs = []")
    case True
    from tl True have ys: "chain h (head_ptr ys) ys" using chain_suffix [of h _ "[]" ys] by simp
    have "n \<notin> set ys" and "x \<notin> set ys" using Cons.prems d True by auto
    then have "chain ?h2 (head_ptr ys) ys"
      using ys True by (simp add: chain_set_next_notin)
    then show ?thesis
      using True px xb xn Cons.prems(4)
      by (simp add: length_set_next next_set_next)
  next
    case False
    have "chain (set_next (set_next h (last xs) (Some n)) n (head_ptr ys))
            (node_next (nodes h ! x)) (xs @ n # ys)"
      using Cons.IH [OF tl False] Cons.prems by simp
    moreover have "x \<noteq> last xs" using d False by auto
    ultimately show ?thesis
      using False px xb xn by (simp add: length_set_next next_set_next)
  qed
qed

subsection \<open>Chains with songs\<close>

lemma clist_Nil: "clist h p [] = (p = None)"
  by (simp add: clist_def)

lemma clist_Cons:
  "clist h p (x # xs) =
     (p = Some (fst x) \<and> fst x < length (nodes h) \<and> rd_song h (Some (fst x)) = Inr (snd x) \<and>
      clist h (node_next (nodes h ! fst x)) xs)"
  by (auto simp: clist_def)

lemma clist_chain: "clist h p xs \<Longrightarrow> chain h p (map fst xs)"
  by (simp add: clist_def)

lemma clist_suffix: "clist h p (xs @ ys) \<Longrightarrow> clist h (head_ptr (map fst ys)) ys"
  using chain_suffix [of h p "map fst xs" "map fst ys"] by (simp add: clist_def)

lemma clist_set_next:
  "chain (set_next h a q) p (map fst xs) \<Longrightarrow> list_all (\<lambda>x. rd_song h (Some (fst x)) = Inr (snd x)) xs
   \<Longrightarrow> clist (set_next h a q) p xs"
  by (simp add: clist_def rd_song_set_next)

subsection \<open>The loops of add_inorder on a chain\<close>

lemma scan_lt_clist:
  assumes "clist h cur suf" and "rd_song h new = Inr ns" and "rd_next h (Some p) = Inr cur"
  shows "scan_lt h new (Some p) cur =
           Some (Inr (Some (last (p # map fst (takeWhile (lt_new ns) suf))),
                      head_ptr (map fst (dropWhile (lt_new ns) suf))))"
  using assms
proof (induction suf arbitrary: p cur)
  case Nil
  then show ?case by (subst scan_lt.simps) (simp add: clist_Nil head_ptr_def)
next
  case (Cons x suf)
  from Cons.prems(1) have cur: "cur = Some (fst x)" and xb: "fst x < length (nodes h)"
    and xs: "rd_song h cur = Inr (snd x)" and tl: "clist h (node_next (nodes h ! fst x)) suf"
    by (simp_all add: clist_Cons)
  have nx: "rd_next h (Some (fst x)) = Inr (node_next (nodes h ! fst x))"
    using xb by (simp add: rd_next_Some)
  show ?case
  proof (cases "lt_new ns x")
    case True
    have "scan_lt h new (Some p) cur = scan_lt h new (Some (fst x)) (node_next (nodes h ! fst x))"
      using True Cons.prems(2,3) xs nx cur
      by (subst scan_lt.simps) (simp add: lt_new_def)
    also note Cons.IH [OF tl Cons.prems(2) nx]
    finally show ?thesis using True by simp
  next
    case False
    have "scan_lt h new (Some p) cur = Some (Inr (Some p, cur))"
      using False Cons.prems(2) xs cur
      by (subst scan_lt.simps) (simp add: lt_new_def)
    then show ?thesis using False cur by (simp add: head_ptr_def)
  qed
qed

lemma scan_eq_clist:
  assumes "clist h cur suf" and "rd_song h new = Inr ns" and "rd_next h (Some p) = Inr cur"
  shows "scan_eq h new (Some p) cur =
           Some (Inr (Some (last (p # map fst (takeWhile (eq_new ns) suf))),
                      head_ptr (map fst (dropWhile (eq_new ns) suf))))"
  using assms
proof (induction suf arbitrary: p cur)
  case Nil
  then show ?case by (subst scan_eq.simps) (simp add: clist_Nil head_ptr_def)
next
  case (Cons x suf)
  from Cons.prems(1) have cur: "cur = Some (fst x)" and xb: "fst x < length (nodes h)"
    and xs: "rd_song h cur = Inr (snd x)" and tl: "clist h (node_next (nodes h ! fst x)) suf"
    by (simp_all add: clist_Cons)
  have nx: "rd_next h (Some (fst x)) = Inr (node_next (nodes h ! fst x))"
    using xb by (simp add: rd_next_Some)
  show ?case
  proof (cases "eq_new ns x")
    case True
    have "scan_eq h new (Some p) cur = scan_eq h new (Some (fst x)) (node_next (nodes h ! fst x))"
      using True Cons.prems(2,3) xs nx cur
      by (subst scan_eq.simps) (simp add: eq_new_def)
    also note Cons.IH [OF tl Cons.prems(2) nx]
    finally show ?thesis using True by simp
  next
    case False
    have "scan_eq h new (Some p) cur = Some (Inr (Some p, cur))"
      using False Cons.prems(2) xs cur
      by (subst scan_eq.simps) (auto simp add: eq_new_def)
    then show ?thesis using False cur by (simp add: head_ptr_def)
  qed
qed

lemma scan_eq_head_clist:
  assumes "clist h cur suf" and "rd_song h new = Inr ns" and "rd_next h (Some p) = Inr cur"
  shows "scan_eq_head h new (Some p) cur =
           (if dropWhile (eq_new ns) suf = [] then Some (Inl NullDeref)
            else Some (Inr (Some (last (p # map fst (takeWhile (eq_new ns) suf))),
                            head_ptr (map fst (dropWhile (eq_new ns) suf)))))"
  using assms
proof (induction suf arbitrary: p cur)
  case Nil
  then show ?case by (subst scan_eq_head.simps) (simp add: clist_Nil rd_song_None)
next
  case (Cons x suf)
  from Cons.prems(1) have cur: "cur = Some (fst x)" and xb: "fst x < length (nodes h)"
    and xs: "rd_song h cur = Inr (snd x)" and tl: "clist h (node_next (nodes h ! fst x)) suf"
    by (simp_all add: clist_Cons)
  have nx: "rd_next h (Some (fst x)) = Inr (node_next (nodes h ! fst x))"
    using xb by (simp add: rd_next_Some)
  show ?case
  proof (cases "eq_new ns x")
    case True
    have "scan_eq_head h new (Some p) cur =
            scan_eq_head h new (Some (fst x)) (node_next (nodes h ! fst x))"
      using True Cons.prems(2,3) xs nx cur
      by (subst scan_eq_head.simps) (simp add: eq_new_def)
    also note Cons.IH [OF tl Cons.prems(2) nx]
    finally show ?thesis using True by simp
  next
    case False
    have "scan_eq_head h new (Some p) cur = Some (Inr (Some p, cur))"
      using False Cons.prems(2) xs cur
      by (subst scan_eq_head.simps) (auto simp add: eq_new_def)
    then show ?thesis using False cur by (simp add: head_ptr_def)
  qed
qed

lemma link_between_clist:
  assumes cl: "clist h list (pre @ suf)" and ne: "pre \<noteq> []" and nb: "n < length (nodes h)"
    and fresh: "n \<notin> fst ` set (pre @ suf)" and ns: "rd_song h (Some n) = Inr ns"
  shows "\<exists>h'. link_between h list (Some n) (Some (last (map fst pre))) (head_ptr (map fst suf))
                 = Inr (h', list) \<and>
              clist h' list (pre @ (n, ns) # suf) \<and> songs h' = songs h"
proof -
  let ?h1 = "set_next h (last (map fst pre)) (Some n)"
  let ?h2 = "set_next ?h1 n (head_ptr (map fst suf))"
  from cl have ch: "chain h list (map fst pre @ map fst suf)" by (simp add: clist_def)
  have "last (map fst pre) \<in> set (map fst pre)" using ne by (intro last_in_set) simp
  then have "last (map fst pre) \<in> set (map fst pre @ map fst suf)" by simp
  with ch have lb: "last (map fst pre) < length (nodes h)" by (rule chain_bound)
  have lk: "link_between h list (Some n) (Some (last (map fst pre))) (head_ptr (map fst suf))
              = Inr (?h2, list)"
    using lb nb by (simp add: link_between_def wr_next_Some bnd_def length_set_next)
  have "map fst pre \<noteq> []" and "n \<notin> set (map fst pre @ map fst suf)"
    using ne fresh by (simp_all add: image_Un)
  then have "chain ?h2 list (map fst pre @ n # map fst suf)"
    by (rule chain_link [OF ch _ _ nb])
  moreover have "list_all (\<lambda>x. rd_song ?h2 (Some (fst x)) = Inr (snd x)) (pre @ (n, ns) # suf)"
    using cl ns by (simp add: clist_def rd_song_set_next)
  ultimately have "clist ?h2 list (pre @ (n, ns) # suf)" by (simp add: clist_def)
  with lk show ?thesis by (auto simp: songs_set_next)
qed

subsection \<open>add_inorder on a chain\<close>

lemma add_head_clist:
  assumes cl: "clist h list xs" and nb: "n < length (nodes h)" and fresh: "n \<notin> fst ` set xs"
    and ns: "rd_song h (Some n) = Inr ns"
  shows "clist (set_next h n list) (Some n) ((n, ns) # xs)"
proof -
  have "chain (set_next h n list) list (map fst xs)"
    using cl fresh by (simp add: clist_def chain_set_next_notin)
  then have "chain (set_next h n list) (Some n) (map fst ((n, ns) # xs))"
    using nb by (simp add: length_set_next next_set_next)
  moreover have "list_all (\<lambda>x. rd_song (set_next h n list) (Some (fst x)) = Inr (snd x)) ((n, ns) # xs)"
    using cl ns by (simp add: clist_def rd_song_set_next)
  ultimately show ?thesis by (simp add: clist_def)
qed

lemma add_tail_clist:
  assumes cl: "clist h (Some a) [x]" and nb: "n < length (nodes h)" and fresh: "n \<noteq> a"
    and ns: "rd_song h (Some n) = Inr ns" and nn: "node_next (nodes h ! n) = None"
  shows "clist (set_next h a (Some n)) (Some a) [x, (n, ns)]"
  using assms
  by (simp add: clist_Cons clist_Nil length_set_next next_set_next rd_song_set_next)

lemma add_inorder_general_refines:
  assumes cl: "clist h list (x # y # ys)" and nb: "n < length (nodes h)"
    and fresh: "n \<notin> fst ` set (x # y # ys)" and ns: "rd_song h (Some n) = Inr ns"
  shows "refines h (add_inorder_general h list (Some n) (Some (fst y))) (ins_inorder (n, ns) (x # y # ys))"
proof -
  let ?E = "eq_new ns" and ?L = "lt_new ns"
  from cl have list: "list = Some (fst x)" and xb: "fst x < length (nodes h)"
    and xs: "rd_song h list = Inr (snd x)"
    and tl: "clist h (node_next (nodes h ! fst x)) (y # ys)"
    by (simp_all add: clist_Cons)
  from tl have cur: "node_next (nodes h ! fst x) = Some (fst y)" by (simp add: clist_Cons)
  have nx: "rd_next h (Some (fst x)) = Inr (Some (fst y))"
    using xb cur by (simp add: rd_next_Some)
  have tl': "clist h (Some (fst y)) (y # ys)" using tl cur by simp
  have head: "refines h (Some (bnd (wr_next h (Some n) list) (\<lambda>h1. Inr (h1, Some n))))
                (Some ((n, ns) # x # y # ys))"
    using add_head_clist [OF cl nb fresh ns] nb
    by (simp add: refines_def wr_next_Some bnd_def songs_set_next)
  consider (gt) "comparator ns > comparator (snd x)"
    | (eq_gt) "comparator ns = comparator (snd x)" "strcmp (song ns) (song (snd x)) > 0"
    | (eq_le) "comparator ns = comparator (snd x)" "\<not> strcmp (song ns) (song (snd x)) > 0"
    | (lt) "comparator ns < comparator (snd x)"
    by linarith
  then show ?thesis
  proof cases
    case gt
    then show ?thesis using head ns xs by (simp add: add_inorder_general_def)
  next
    case eq_gt
    then show ?thesis using head ns xs by (simp add: add_inorder_general_def)
  next
    case eq_le
    have sc: "scan_eq_head h (Some n) list (Some (fst y)) =
                (if dropWhile ?E (y # ys) = [] then Some (Inl NullDeref)
                 else Some (Inr (Some (last (fst x # map fst (takeWhile ?E (y # ys)))),
                                 head_ptr (map fst (dropWhile ?E (y # ys))))))"
      unfolding list by (rule scan_eq_head_clist [OF tl' ns nx])
    show ?thesis
    proof (cases "dropWhile ?E (y # ys) = []")
      case True
      have "add_inorder_general h list (Some n) (Some (fst y)) = Some (Inl NullDeref)"
        using eq_le ns xs sc True by (simp add: add_inorder_general_def)
      moreover have "ins_inorder (n, ns) (x # y # ys) = None"
        using eq_le True by simp
      ultimately show ?thesis by (simp add: refines_def)
    next
      case False
      let ?pre = "x # takeWhile ?E (y # ys)" and ?suf = "dropWhile ?E (y # ys)"
      have split: "?pre @ ?suf = x # y # ys" by simp
      have "add_inorder_general h list (Some n) (Some (fst y)) =
              Some (link_between h list (Some n) (Some (last (map fst ?pre))) (head_ptr (map fst ?suf)))"
        using eq_le ns xs sc False by (simp add: add_inorder_general_def)
      moreover have "ins_inorder (n, ns) (x # y # ys) = Some (?pre @ (n, ns) # ?suf)"
        using eq_le False by simp
      moreover have "\<exists>h'. link_between h list (Some n) (Some (last (map fst ?pre))) (head_ptr (map fst ?suf))
                 = Inr (h', list) \<and> clist h' list (?pre @ (n, ns) # ?suf) \<and> songs h' = songs h"
        using cl fresh unfolding split [symmetric]
        by (intro link_between_clist [OF _ _ nb _ ns]) simp_all
      ultimately show ?thesis by (auto simp: refines_def)
    qed
  next
    case lt
    let ?T1 = "takeWhile ?L (y # ys)" and ?D1 = "dropWhile ?L (y # ys)"
    let ?T2 = "takeWhile ?E ?D1" and ?D2 = "dropWhile ?E ?D1"
    let ?pre = "x # ?T1 @ ?T2"
    have split1: "(x # ?T1) @ ?D1 = x # y # ys" by simp
    have split2: "?pre @ ?D2 = x # y # ys" by simp
    have s1: "scan_lt h (Some n) list (Some (fst y)) =
                Some (Inr (Some (last (map fst (x # ?T1))), head_ptr (map fst ?D1)))"
      unfolding list using scan_lt_clist [OF tl' ns nx] by simp
    have d1: "clist h (head_ptr (map fst ?D1)) ?D1"
      using clist_suffix [of h list "x # ?T1" ?D1] cl by simp
    have "chain h list (map fst (x # ?T1) @ map fst ?D1)"
      using cl unfolding split1 [symmetric] clist_def by simp
    then have n1: "rd_next h (Some (last (map fst (x # ?T1)))) = Inr (head_ptr (map fst ?D1))"
      by (rule chain_last_next) simp
    have s2: "scan_eq h (Some n) (Some (last (map fst (x # ?T1)))) (head_ptr (map fst ?D1)) =
                Some (Inr (Some (last (map fst ?pre)), head_ptr (map fst ?D2)))"
      using scan_eq_clist [OF d1 ns n1] by (simp add: last_append)
    have "add_inorder_general h list (Some n) (Some (fst y)) =
            Some (link_between h list (Some n) (Some (last (map fst ?pre))) (head_ptr (map fst ?D2)))"
      using lt ns xs s1 s2 by (simp add: add_inorder_general_def)
    moreover have "ins_inorder (n, ns) (x # y # ys) = Some (?pre @ (n, ns) # ?D2)"
      using lt by simp
    moreover have "\<exists>h'. link_between h list (Some n) (Some (last (map fst ?pre))) (head_ptr (map fst ?D2))
               = Inr (h', list) \<and> clist h' list (?pre @ (n, ns) # ?D2) \<and> songs h' = songs h"
      using cl fresh unfolding split2 [symmetric]
      by (intro link_between_clist [OF _ _ nb _ ns]) simp_all
    ultimately show ?thesis by (auto simp: refines_def)
  qed
qed

lemma add_inorder_refines:
  assumes cl: "clist h list xs" and nb: "n < length (nodes h)" and fresh: "n \<notin> fst ` set xs"
    and ns: "rd_song h (Some n) = Inr ns" and nn: "node_next (nodes h ! n) = None"
  shows "refines h (add_inorder h list (Some n)) (ins_inorder (n, ns) xs)"
proof -
  consider (Nil) "xs = []" | (One) x where "xs = [x]" | (More) x y ys where "xs = x # y # ys"
    by (cases xs rule: remdups_adj.cases) auto
  then show ?thesis
  proof cases
    case Nil
    with cl have "list = None" by (simp add: clist_Nil)
    moreover have "clist h (Some n) [(n, ns)]"
      using nb ns nn by (simp add: clist_Cons clist_Nil)
    ultimately show ?thesis using Nil by (simp add: add_inorder_def refines_def)
  next
    case One
    from cl One have list: "list = Some (fst x)" and xb: "fst x < length (nodes h)"
      and xs: "rd_song h list = Inr (snd x)" and xn: "node_next (nodes h ! fst x) = None"
      by (simp_all add: clist_Cons clist_Nil)
    from fresh One have ne: "n \<noteq> fst x" by simp
    have step: "add_inorder h list (Some n) = Some (add_inorder_single h list (Some n))"
      using list xb xn by (simp add: add_inorder_def rd_next_Some)
    have cl1: "clist h (Some (fst x)) [x]" using cl One list by simp
    have t: "clist (set_next h (fst x) (Some n)) list [x, (n, ns)]"
      unfolding list by (rule add_tail_clist [OF cl1 nb ne ns nn])
    have hd: "clist (set_next h n list) (Some n) [(n, ns), x]"
      using add_head_clist [OF cl nb fresh ns] One by simp
    show ?thesis
      unfolding step One
      using t hd xs ns xb nb list
      by (simp add: add_inorder_single_def bnd_def wr_next_Some refines_def songs_set_next)
  next
    case More
    from cl More have "fst x < length (nodes h)" and "node_next (nodes h ! fst x) = Some (fst y)"
      and "list = Some (fst x)"
      by (simp_all add: clist_Cons)
    then have "add_inorder h list (Some n) = add_inorder_general h list (Some n) (Some (fst y))"
      by (simp add: add_inorder_def rd_next_Some)
    then show ?thesis
      using add_inorder_general_refines [of h list x y ys n ns] cl nb fresh ns More by simp
  qed
qed

subsection \<open>strcmp is a total preorder\<close>

lemma strcmp_swap: "strcmp b a = - strcmp a b"
  by (induction a b rule: strcmp.induct) auto

lemma strcmp_refl: "strcmp a a = 0"
  by (induction a) auto

lemma strcmp_ge_trans: "0 \<le> strcmp a b \<Longrightarrow> 0 \<le> strcmp b c \<Longrightarrow> 0 \<le> strcmp a c"
proof (induction a b arbitrary: c rule: strcmp.induct)
  case 1
  then show ?case by simp
next
  case (2 y ys)
  then show ?case by simp
next
  case (3 x xs)
  then show ?case by (cases c) simp_all
next
  case (4 x xs y ys)
  show ?case
  proof (cases c)
    case Nil
    then show ?thesis by simp
  next
    case (Cons z zs)
    with "4.prems" "4.IH" show ?thesis
      by (auto split: if_splits)
  qed
qed

lemma doc_before_trans: "doc_before a b \<Longrightarrow> doc_before b c \<Longrightarrow> doc_before a c"
  unfolding doc_before_def using strcmp_ge_trans [of "song a" "song b" "song c"] by auto

lemma cmp_before_trans: "cmp_before a b \<Longrightarrow> cmp_before b c \<Longrightarrow> cmp_before a c"
  by (simp add: cmp_before_def)

subsection \<open>Inserting into a sorted list\<close>

lemma sorted_wrt_insert_mid:
  assumes tr: "\<And>a b c. R a b \<Longrightarrow> R b c \<Longrightarrow> R a c"
    and srt: "sorted_wrt R (pre @ suf)"
    and pre: "\<forall>a\<in>set pre. R a n"
    and suf: "suf \<noteq> [] \<Longrightarrow> R n (hd suf)"
  shows "sorted_wrt R (pre @ n # suf)"
proof -
  have "\<forall>y\<in>set suf. R n y"
  proof (cases suf)
    case Nil
    then show ?thesis by simp
  next
    case (Cons d ds)
    with suf have "R n d" by simp
    moreover from srt Cons have "\<forall>y\<in>set ds. R d y" by (simp add: sorted_wrt_append)
    ultimately show ?thesis using Cons tr by auto
  qed
  with srt pre show ?thesis by (auto simp: sorted_wrt_append)
qed

lemma ins_inorder_general:
  assumes "r \<noteq> []"
  shows "ins_inorder n (x # r) =
     (if comparator (snd n) > comparator (snd x) then Some (n # x # r)
      else if comparator (snd n) = comparator (snd x)
      then
        if strcmp (song (snd n)) (song (snd x)) > 0 then Some (n # x # r)
        else if dropWhile (eq_new (snd n)) r = [] then None
        else Some ((x # takeWhile (eq_new (snd n)) r) @ n # dropWhile (eq_new (snd n)) r)
      else
        Some ((x # takeWhile (lt_new (snd n)) r
                 @ takeWhile (eq_new (snd n)) (dropWhile (lt_new (snd n)) r))
                @ n # dropWhile (eq_new (snd n)) (dropWhile (lt_new (snd n)) r)))"
  using assms by (cases r) simp_all

lemma ins_inorder_split:
  assumes "ins_inorder n xs = Some zs"
  shows "\<exists>pre suf. xs = pre @ suf \<and> zs = pre @ n # suf"
proof -
  consider (Nil) "xs = []" | (One) x where "xs = [x]" | (More) x r where "xs = x # r" "r \<noteq> []"
    by (cases xs rule: remdups_adj.cases) auto
  then show ?thesis
  proof cases
    case Nil
    with assms show ?thesis by simp
  next
    case One
    with assms consider "zs = [] @ n # [x]" | "zs = [x] @ n # []"
      by (auto split: if_splits)
    then show ?thesis
    proof cases
      case 1
      then show ?thesis using One by (intro exI [of _ "[]"] exI [of _ "[x]"]) simp
    next
      case 2
      then show ?thesis using One by (intro exI [of _ "[x]"] exI [of _ "[]"]) simp
    qed
  next
    case More
    let ?E = "eq_new (snd n)" and ?L = "lt_new (snd n)"
    let ?pe = "x # takeWhile ?E r"
    let ?pl = "x # takeWhile ?L r @ takeWhile ?E (dropWhile ?L r)"
    consider (hd) "zs = [] @ n # xs"
      | (eq) "zs = ?pe @ n # dropWhile ?E r"
      | (lt) "zs = ?pl @ n # dropWhile ?E (dropWhile ?L r)"
      using assms More unfolding More(1) ins_inorder_general [OF More(2)]
      by (auto split: if_splits)
    then show ?thesis
    proof cases
      case hd
      then show ?thesis by (intro exI [of _ "[]"] exI [of _ xs]) simp
    next
      case eq
      moreover have "xs = ?pe @ dropWhile ?E r" using More by simp
      ultimately show ?thesis by blast
    next
      case lt
      moreover have "xs = ?pl @ dropWhile ?E (dropWhile ?L r)" using More by simp
      ultimately show ?thesis by blast
    qed
  qed
qed

lemma ins_inorder_mset: "ins_inorder n xs = Some zs \<Longrightarrow> mset zs = add_mset n (mset xs)"
  using ins_inorder_split [of n xs zs] by auto

lemma ins_inorder_sorted:
  fixes n :: "'a \<times> Song" and R :: "Song \<Rightarrow> Song \<Rightarrow> bool"
  assumes tr: "\<And>a b c. R a b \<Longrightarrow> R b c \<Longrightarrow> R a c"
    and A1: "\<And>a. comparator (snd n) < comparator a \<Longrightarrow> R a (snd n)"
    and A2: "\<And>a. comparator (snd n) = comparator a \<Longrightarrow> strcmp (song (snd n)) (song a) \<le> 0
               \<Longrightarrow> R a (snd n)"
    and A3: "\<And>a. comparator a < comparator (snd n) \<Longrightarrow> R (snd n) a"
    and A4: "\<And>a. comparator a = comparator (snd n) \<Longrightarrow> 0 \<le> strcmp (song (snd n)) (song a)
               \<Longrightarrow> R (snd n) a"
    and A5: "\<And>a b. R a b \<Longrightarrow> comparator b \<le> comparator a"
    and srt: "sorted_wrt R (map snd (x # r))" and r: "r \<noteq> []"
    and ins: "ins_inorder n (x # r) = Some zs"
  shows "sorted_wrt R (map snd zs)"
proof -
  let ?E = "eq_new (snd n)" and ?L = "lt_new (snd n)"
  let ?c = "\<lambda>s. comparator s"
  have after: "R (snd n) (snd d)" if le: "?c (snd d) \<le> ?c (snd n)" and nE: "\<not> ?E d" for d
  proof (cases "?c (snd d) < ?c (snd n)")
    case True
    then show ?thesis by (rule A3)
  next
    case False
    with le have "?c (snd d) = ?c (snd n)" by simp
    moreover from this nE have "0 \<le> strcmp (song (snd n)) (song (snd d))"
      by (simp add: eq_new_def)
    ultimately show ?thesis by (rule A4)
  qed
  have E_before: "R (snd a) (snd n)" if "?E a" for a
    using that A2 [of "snd a"] by (simp add: eq_new_def)
  have L_before: "R (snd a) (snd n)" if "?L a" for a
    using that A1 [of "snd a"] by (simp add: lt_new_def)
  have inE: "R (snd a) (snd n)" if "a \<in> set (takeWhile ?E ys)" for a ys
    using that E_before [of a] set_takeWhileD [of a ?E ys] by blast
  have inL: "R (snd a) (snd n)" if "a \<in> set (takeWhile ?L ys)" for a ys
    using that L_before [of a] set_takeWhileD [of a ?L ys] by blast
  have below_x: "?c (snd d) \<le> ?c (snd x)" if "d \<in> set r" for d
    using srt that A5 by auto
  have mid: "sorted_wrt R (pre @ m # suf)"
    if "sorted_wrt R (pre @ suf)" and "\<forall>a\<in>set pre. R a m" and "suf \<noteq> [] \<Longrightarrow> R m (hd suf)"
    for pre suf m
    using tr that by (rule sorted_wrt_insert_mid [of R])
  consider (hd) "R (snd n) (snd x)" "zs = n # x # r"
    | (eq) "?c (snd n) = ?c (snd x)" "strcmp (song (snd n)) (song (snd x)) \<le> 0"
        "dropWhile ?E r \<noteq> []" "zs = (x # takeWhile ?E r) @ n # dropWhile ?E r"
    | (lt) "?c (snd n) < ?c (snd x)"
        "zs = (x # takeWhile ?L r @ takeWhile ?E (dropWhile ?L r))
                @ n # dropWhile ?E (dropWhile ?L r)"
    using ins A3 [of "snd x"] A4 [of "snd x"] unfolding ins_inorder_general [OF r]
    by (auto split: if_splits)
  then show ?thesis
  proof cases
    case hd
    have "sorted_wrt R ([] @ snd n # map snd (x # r))"
      using srt hd(1) by (intro mid) simp_all
    then show ?thesis using hd(2) by simp
  next
    case eq
    let ?pre = "x # takeWhile ?E r" and ?suf = "dropWhile ?E r"
    have split: "?pre @ ?suf = x # r" by simp
    have "sorted_wrt R (map snd ?pre @ snd n # map snd ?suf)"
    proof (rule mid)
      have "map snd ?pre @ map snd ?suf = map snd (?pre @ ?suf)" by (simp only: map_append)
      then show "sorted_wrt R (map snd ?pre @ map snd ?suf)"
        using srt by (simp only: split)
      show "\<forall>a\<in>set (map snd ?pre). R a (snd n)"
        using A2 [of "snd x"] eq(1,2) inE by auto
      show "R (snd n) (hd (map snd ?suf))"
      proof -
        have "hd ?suf \<in> set r" using eq(3) by (metis hd_in_set set_dropWhileD)
        then have "?c (snd (hd ?suf)) \<le> ?c (snd n)" using below_x eq(1) by simp
        moreover have "\<not> ?E (hd ?suf)" using eq(3) by (rule hd_dropWhile)
        ultimately show ?thesis using eq(3) by (simp add: hd_map after)
      qed
    qed
    then show ?thesis using eq(4) by simp
  next
    case lt
    let ?D1 = "dropWhile ?L r"
    let ?pre = "x # takeWhile ?L r @ takeWhile ?E ?D1" and ?suf = "dropWhile ?E ?D1"
    have split: "?pre @ ?suf = x # r" by simp
    have D1: "?c (snd d) \<le> ?c (snd n)" if d: "d \<in> set ?D1" for d
    proof -
      from d have ne: "?D1 \<noteq> []" by (cases ?D1) simp_all
      then have "\<not> ?L (hd ?D1)" by (rule hd_dropWhile)
      then have h: "?c (snd (hd ?D1)) \<le> ?c (snd n)" by (simp add: lt_new_def)
      have "sorted_wrt R (map snd (takeWhile ?L r) @ map snd ?D1)"
        using srt by (simp flip: map_append)
      then have "sorted_wrt R (map snd ?D1)" by (simp add: sorted_wrt_append)
      moreover obtain e es where "?D1 = e # es" using ne by (cases ?D1) auto
      ultimately have "d = hd ?D1 \<or> R (snd (hd ?D1)) (snd d)" using d by auto
      then show ?thesis using h A5 [of "snd (hd ?D1)" "snd d"] by auto
    qed
    have "sorted_wrt R (map snd ?pre @ snd n # map snd ?suf)"
    proof (rule mid)
      have "map snd ?pre @ map snd ?suf = map snd (?pre @ ?suf)" by (simp only: map_append)
      then show "sorted_wrt R (map snd ?pre @ map snd ?suf)"
        using srt by (simp only: split)
      show "\<forall>a\<in>set (map snd ?pre). R a (snd n)"
        using A1 [of "snd x"] lt(1) inE inL by auto
      show "R (snd n) (hd (map snd ?suf))" if ne: "map snd ?suf \<noteq> []"
      proof -
        from ne have ne': "?suf \<noteq> []" by simp
        then have "hd ?suf \<in> set ?D1" by (metis hd_in_set set_dropWhileD)
        then have "?c (snd (hd ?suf)) \<le> ?c (snd n)" by (rule D1)
        moreover have "\<not> ?E (hd ?suf)" using ne' by (rule hd_dropWhile)
        ultimately show ?thesis using ne' by (simp add: hd_map after)
      qed
    qed
    then show ?thesis using lt(2) by simp
  qed
qed

section \<open>Front operations\<close>

lemmas heap_simps =
  mk_node_def mk_song_def rd_next_def rd_song_def rd_node_def wr_next_def set_next_def bnd_def

text \<open>
  Claim C6. For every list \<open>L\<close> (the non-empty ones among them) and every valid node \<open>n\<close>
  outside \<open>L\<close>, \<^verbatim>\<open>add_front\<close> returns \<open>n\<close> and \<^verbatim>\<open>remove_front\<close> of the result returns
  the head reference of \<open>L\<close>; the chain from that head is the chain of \<open>L\<close>, and every
  cell of \<open>L\<close> is unchanged.
\<close>

theorem add_front_remove_front:
  assumes "chain h list as" and "n < length (nodes h)" and "n \<notin> set as"
  shows "\<exists>h1. add_front h list (Some n) = Inr (h1, Some n) \<and>
              remove_front h1 (Some n) = Inr (h1, list) \<and>
              chain h1 list as \<and>
              (\<forall>a\<in>set as. nodes h1 ! a = nodes h ! a)"
proof -
  let ?h1 = "set_next h n list"
  have "add_front h list (Some n) = Inr (?h1, Some n)"
    using assms(2) by (simp add: add_front_def wr_next_Some bnd_def)
  moreover have "remove_front ?h1 (Some n) = Inr (?h1, list)"
    using assms(2) by (simp add: remove_front_def rd_next_Some bnd_def length_set_next next_set_next)
  moreover have "chain ?h1 list as"
    using assms(1,3) by (simp add: chain_set_next_notin)
  moreover have "\<forall>a\<in>set as. nodes ?h1 ! a = nodes h ! a"
  proof
    fix a assume "a \<in> set as"
    with assms(3) have "n \<noteq> a" by auto
    then show "nodes ?h1 ! a = nodes h ! a" by (simp add: set_next_def)
  qed
  ultimately show ?thesis by blast
qed

theorem add_front_remove_front_witness:
  "chain link_heap (Some 2) [2, 0, 1] \<and> 3 < length (nodes link_heap) \<and> 3 \<notin> set [2, 0, 1 :: nat] \<and>
   (\<exists>h1. add_front link_heap (Some 2) (Some 3) = Inr (h1, Some 3) \<and>
         remove_front h1 (Some 3) = Inr (h1, Some 2) \<and>
         chain h1 (Some 2) [2, 0, 1] \<and>
         (\<forall>a\<in>set [2, 0, 1]. nodes h1 ! a = nodes link_heap ! a))"
proof -
  have c: "chain link_heap (Some 2) [2, 0, 1]" by (simp add: link_heap_def mk_node_def)
  have b: "3 < length (nodes link_heap)" by (simp add: link_heap_def)
  have f: "3 \<notin> set [2, 0, 1 :: nat]" by simp
  show ?thesis using add_front_remove_front [OF c b f] c b f by simp
qed

text \<open>
  Claim C9. \<^verbatim>\<open>remove_front\<close> returns the second node of the chain, or none when the
  chain has one node or fewer, and leaves the heap as it was: no cell and no song is
  released or changed. \<^verbatim>\<open>peek_front\<close>, called twice, returns the head both times and
  leaves the heap as it was.
\<close>

theorem remove_front_peek_front:
  assumes "chain h list as"
  shows "remove_front h list = Inr (h, if length as \<le> 1 then None else Some (as ! 1)) \<and>
         (\<exists>h1 r1 h2 r2. peek_front h list = Inr (h1, r1) \<and> peek_front h1 list = Inr (h2, r2) \<and>
            r1 = list \<and> r2 = list \<and> h1 = h \<and> h2 = h)"
proof -
  have "remove_front h list = Inr (h, if length as \<le> 1 then None else Some (as ! 1))"
  proof (cases as)
    case Nil
    with assms show ?thesis by (simp add: remove_front_def)
  next
    case (Cons a bs)
    with assms have "list = Some a" and "a < length (nodes h)"
      and "chain h (node_next (nodes h ! a)) bs" by simp_all
    moreover from this(3) have "node_next (nodes h ! a) = head_ptr bs" by (rule chain_head_ptr)
    ultimately show ?thesis using Cons
      by (cases bs) (simp_all add: remove_front_def rd_next_Some bnd_def head_ptr_def)
  qed
  then show ?thesis by (simp add: peek_front_def)
qed

theorem remove_front_peek_front_witness:
  "chain link_heap (Some 2) [2, 0, 1] \<and>
   remove_front link_heap (Some 2) = Inr (link_heap, Some 0) \<and>
   peek_front link_heap (Some 2) = Inr (link_heap, Some 2)"
proof -
  have c: "chain link_heap (Some 2) [2, 0, 1]" by (simp add: link_heap_def mk_node_def)
  show ?thesis using remove_front_peek_front [OF c] c by (simp add: peek_front_def)
qed

text \<open>
  Claim C10. On a non-empty list \<^verbatim>\<open>remove_front\<close> writes nothing: the heap is returned
  as it was, the next-link of the former head is the returned head, and so the former head
  still heads the whole chain, of which the returned list is the tail.
\<close>

theorem remove_front_keeps_link:
  assumes "chain h list (a # as)"
  shows "\<exists>h1 r. remove_front h list = Inr (h1, r) \<and> h1 = h \<and>
               node_next (nodes h1 ! a) = r \<and> chain h1 r as \<and> chain h1 (Some a) (a # as)"
  using assms by (simp add: remove_front_def rd_next_Some bnd_def)

theorem remove_front_keeps_link_witness:
  "chain link_heap (Some 2) [2, 0, 1] \<and>
   remove_front link_heap (Some 2) = Inr (link_heap, Some 0) \<and>
   node_next (nodes link_heap ! 2) = Some 0 \<and>
   chain link_heap (Some 0) [0, 1]"
proof -
  have c: "chain link_heap (Some 2) [2, 0, 1]" by (simp add: link_heap_def mk_node_def)
  show ?thesis using remove_front_keeps_link [OF c] c by auto
qed

section \<open>The one-node branch\<close>

text \<open>
  Claim C5. On a list of exactly one node, and a new node of the same comparator,
  \<^verbatim>\<open>add_inorder\<close> decides on the artists, whatever the titles: when the existing node's
  artist compares less than the new one's, the head is kept and the new node follows it;
  otherwise the new node becomes the head and the existing node follows it.
\<close>

theorem add_inorder_single_artist:
  assumes "clist h list [(a, ls)]" and "n < length (nodes h)" and "n \<noteq> a"
    and "rd_song h (Some n) = Inr ns" and "node_next (nodes h ! n) = None"
    and "comparator ns = comparator ls"
  shows "\<exists>h1. add_inorder h list (Some n)
                 = Some (Inr (h1, if strcmp (artist ls) (artist ns) < 0 then list else Some n)) \<and>
              clist h1 (if strcmp (artist ls) (artist ns) < 0 then list else Some n)
                (if strcmp (artist ls) (artist ns) < 0 then [(a, ls), (n, ns)]
                 else [(n, ns), (a, ls)])"
proof -
  from assms(1) have list: "list = Some a" and ab: "a < length (nodes h)"
    and ls: "rd_song h list = Inr ls" and an: "node_next (nodes h ! a) = None"
    by (simp_all add: clist_Cons clist_Nil)
  have fresh: "n \<notin> fst ` set [(a, ls)]" using assms(3) by simp
  have step: "add_inorder h list (Some n) = Some (add_inorder_single h list (Some n))"
    using list ab an by (simp add: add_inorder_def rd_next_Some)
  have cl1: "clist h (Some a) [(a, ls)]" using assms(1) list by simp
  have t: "clist (set_next h a (Some n)) list [(a, ls), (n, ns)]"
    unfolding list by (rule add_tail_clist [OF cl1 assms(2,3,4,5)])
  have hd: "clist (set_next h n list) (Some n) [(n, ns), (a, ls)]"
    by (rule add_head_clist [OF assms(1,2) fresh assms(4)])
  show ?thesis
    unfolding step
    using t hd ls assms(2,4,6) ab list
    by (simp add: add_inorder_single_def bnd_def wr_next_Some)
qed

theorem add_inorder_single_artist_witness:
  "clist single_heap (Some 0) [(0, mk_song ''a'' ''Z'' 1)] \<and>
   rd_song single_heap (Some 1) = Inr (mk_song ''b'' ''A'' 1) \<and>
   strcmp ''a'' ''b'' < 0 \<and> strcmp ''Z'' ''A'' > 0 \<and>
   (\<exists>h1. add_inorder single_heap (Some 0) (Some 1) = Some (Inr (h1, Some 0)) \<and>
         clist h1 (Some 0) [(0, mk_song ''a'' ''Z'' 1), (1, mk_song ''b'' ''A'' 1)])"
proof -
  have c: "clist single_heap (Some 0) [(0, mk_song ''a'' ''Z'' 1)]"
    by (simp add: clist_def single_heap_def heap_simps)
  have b: "1 < length (nodes single_heap)" by (simp add: single_heap_def)
  have s: "rd_song single_heap (Some 1) = Inr (mk_song ''b'' ''A'' 1)"
    by (simp add: single_heap_def heap_simps)
  have x: "node_next (nodes single_heap ! 1) = None" by (simp add: single_heap_def heap_simps)
  have e: "comparator (mk_song ''b'' ''A'' 1) = comparator (mk_song ''a'' ''Z'' 1)"
    by (simp add: mk_song_def)
  have "(1::nat) \<noteq> 0" by simp
  from add_inorder_single_artist [OF c b this s x e] c s show ?thesis
    by (simp add: mk_song_def)
qed

section \<open>add_end\<close>

lemma add_end_walk_chain:
  "chain h (Some a) (a # as) \<Longrightarrow> add_end_walk h (Some a) = Some (Inr (Some (last (a # as))))"
proof (induction as arbitrary: a)
  case Nil
  then show ?case by (subst add_end_walk.simps) (simp add: rd_next_Some bnd_def)
next
  case (Cons b bs)
  then have ab: "a < length (nodes h)" and nx: "node_next (nodes h ! a) = Some b"
    and tl: "chain h (Some b) (b # bs)" by auto
  have "add_end_walk h (Some a) = add_end_walk h (Some b)"
    using ab nx by (subst add_end_walk.simps) (simp add: rd_next_Some)
  with Cons.IH [OF tl] show ?case by simp
qed

lemma chain_append_end:
  assumes "as \<noteq> []" and "chain h p as" and "n < length (nodes h)"
  shows "chain (set_next (set_next h (last as) (Some n)) n None) p (takeWhile (\<lambda>a. a \<noteq> n) as @ [n])"
  using assms
proof (induction as arbitrary: p rule: list_nonempty_induct)
  case (single a)
  then show ?case by (simp add: length_set_next next_set_next)
next
  case (cons a as)
  let ?h2 = "set_next (set_next h (last as) (Some n)) n None"
  from cons.prems have p: "p = Some a" and ab: "a < length (nodes h)"
    and tl: "chain h (node_next (nodes h ! a)) as" by simp_all
  show ?case
  proof (cases "a = n")
    case True
    then show ?thesis using p ab cons.hyps by (simp add: length_set_next next_set_next)
  next
    case False
    have "a \<notin> set as" using cons.prems(1) by (rule chain_head_notin_tail)
    then have "a \<noteq> last as" using cons.hyps last_in_set by fastforce
    moreover have "chain ?h2 (node_next (nodes h ! a)) (takeWhile (\<lambda>a. a \<noteq> n) as @ [n])"
      by (rule cons.IH [OF tl cons.prems(2)])
    ultimately show ?thesis
      using False p ab cons.hyps by (simp add: length_set_next next_set_next)
  qed
qed

text \<open>
  Claim C8. For every list and every valid node \<open>n\<close>, \<^verbatim>\<open>add_end\<close> returns the head it
  was given when the list is not empty and \<open>n\<close> when it is empty; in the heap it leaves,
  \<open>n\<close> is the last cell of the returned chain and its next-link is none. (The chain is the
  old one up to, and without, \<open>n\<close>, followed by \<open>n\<close>: the whole old chain when \<open>n\<close> was
  not in it.)
\<close>

theorem add_end_appends:
  assumes "chain h list as" and "n < length (nodes h)"
  shows "\<exists>h1. add_end h list (Some n) = Some (Inr (h1, if list = None then Some n else list)) \<and>
              chain h1 (if list = None then Some n else list) (takeWhile (\<lambda>a. a \<noteq> n) as @ [n]) \<and>
              rd_next h1 (Some n) = Inr None \<and>
              (n \<notin> set as \<longrightarrow> chain h1 (if list = None then Some n else list) (as @ [n]))"
proof (cases as)
  case Nil
  with assms(1) have "list = None" by simp
  then show ?thesis
    using Nil assms(2)
    by (simp add: add_end_def wr_next_Some bnd_def rd_next_Some length_set_next next_set_next)
next
  case (Cons a bs)
  let ?h2 = "set_next (set_next h (last as) (Some n)) n None"
  from assms(1) Cons have list: "list = Some a" by simp
  have ne: "as \<noteq> []" using Cons by simp
  then have "last as \<in> set as" by (rule last_in_set)
  with assms(1) have lb: "last as < length (nodes h)" by (rule chain_bound)
  have "add_end_walk h list = Some (Inr (Some (last as)))"
    using add_end_walk_chain [of h a bs] assms(1) Cons list by simp
  then have call: "add_end h list (Some n) = Some (Inr (?h2, list))"
    using list lb assms(2) by (simp add: add_end_def wr_next_Some bnd_def length_set_next)
  have ch: "chain ?h2 list (takeWhile (\<lambda>a. a \<noteq> n) as @ [n])"
    by (rule chain_append_end [OF ne assms])
  have nx: "rd_next ?h2 (Some n) = Inr None"
    using assms(2) by (simp add: rd_next_Some length_set_next next_set_next)
  have "chain ?h2 list (as @ [n])" if "n \<notin> set as"
  proof -
    from that have "takeWhile (\<lambda>a. a \<noteq> n) as = as"
      by (intro takeWhile_eq_all_conv [THEN iffD2]) auto
    with ch show ?thesis by simp
  qed
  with call ch nx list show ?thesis by simp
qed

theorem add_end_appends_witness:
  "chain link_heap (Some 2) [2, 0, 1] \<and> 3 < length (nodes link_heap) \<and>
   (\<exists>h1. add_end link_heap (Some 2) (Some 3) = Some (Inr (h1, Some 2)) \<and>
         chain h1 (Some 2) [2, 0, 1, 3] \<and> rd_next h1 (Some 3) = Inr None)"
proof -
  have c: "chain link_heap (Some 2) [2, 0, 1]" by (simp add: link_heap_def mk_node_def)
  have b: "3 < length (nodes link_heap)" by (simp add: link_heap_def)
  have f: "3 \<notin> set [2, 0, 1 :: nat]" by simp
  from add_end_appends [OF c b] obtain h1 where
    "add_end link_heap (Some 2) (Some 3) = Some (Inr (h1, Some 2))"
    and "3 \<notin> set [2, 0, 1 :: nat] \<longrightarrow> chain h1 (Some 2) ([2, 0, 1] @ [3])"
    and "rd_next h1 (Some 3) = Inr None"
    by auto
  with f c b show ?thesis by simp
qed

section \<open>apply\<close>

lemma chain_links:
  assumes "map node_next (nodes h') = map node_next (nodes h)"
  shows "chain h' p as = chain h p as"
proof (induction as arbitrary: p)
  case Nil
  show ?case by simp
next
  case (Cons a as)
  have len: "length (nodes h') = length (nodes h)"
    using assms by (metis length_map)
  show ?case
  proof (cases "a < length (nodes h)")
    case True
    then have "node_next (nodes h' ! a) = node_next (nodes h ! a)"
      using assms len by (metis nth_map)
    with Cons.IH len show ?thesis by simp
  next
    case False
    with len show ?thesis by simp
  qed
qed

lemma apply_list_fold:
  assumes "chain (fst s) list as"
    and "\<forall>p a t. map node_next (nodes (fst (fn p a t))) = map node_next (nodes (fst t))"
  shows "apply_list fn arg list s = Some (Inr (fold (\<lambda>a. fn (Some a) arg) as s))"
  using assms(1)
proof (induction as arbitrary: list s)
  case Nil
  then show ?case by (subst apply_list.simps) simp
next
  case (Cons a as)
  let ?s1 = "fn (Some a) arg s"
  from assms(2) have links: "map node_next (nodes (fst ?s1)) = map node_next (nodes (fst s))"
    by blast
  from Cons.prems have list: "list = Some a" by simp
  have "chain (fst ?s1) (Some a) (a # as)"
    using Cons.prems list by (simp only: chain_links [OF links])
  then have ab: "a < length (nodes (fst ?s1))"
    and tl: "chain (fst ?s1) (node_next (nodes (fst ?s1) ! a)) as" by simp_all
  have "apply_list fn arg list s = apply_list fn arg (node_next (nodes (fst ?s1) ! a)) ?s1"
    using list ab by (subst apply_list.simps) (simp add: rd_next_Some)
  with Cons.IH [OF tl] show ?case by simp
qed

lemma fold_log_visit:
  "fold (\<lambda>a. log_visit (Some a) arg) as (h, l) = (h, l @ map (\<lambda>a. (Some a, arg)) as)"
  by (induction as arbitrary: l) (simp_all add: log_visit_def)

text \<open>
  Claim C7. On a chain of \<open>k\<close> cells, with a visitor that leaves the next-links alone,
  \<^verbatim>\<open>apply\<close> returns, and the state it returns is the one reached by calling the visitor on
  the first cell with the context, then on the second, and so on to the last: \<open>k\<close> calls, one
  per cell, in chain order, none skipped. With the visitor that records its calls, the
  record is the list of the \<open>k\<close> cells, each paired with the context.
\<close>

theorem apply_visits_each_node_once:
  assumes "chain (fst s) list as"
    and "\<forall>p a t. map node_next (nodes (fst (fn p a t))) = map node_next (nodes (fst t))"
  shows "apply_list fn arg list s = Some (Inr (fold (\<lambda>a. fn (Some a) arg) as s)) \<and>
         apply_list log_visit arg list (fst s, []) = Some (Inr (fst s, map (\<lambda>a. (Some a, arg)) as)) \<and>
         length (map (\<lambda>a. (Some a, arg)) as) = length as"
proof -
  have "apply_list log_visit arg list (fst s, []) =
          Some (Inr (fold (\<lambda>a. log_visit (Some a) arg) as (fst s, [])))"
    using assms(1) by (intro apply_list_fold) (simp_all add: log_visit_def)
  then show ?thesis
    using apply_list_fold [OF assms] by (simp add: fold_log_visit)
qed

theorem apply_visits_each_node_once_witness:
  "chain (fst (link_heap, 0 :: nat)) (Some 2) [2, 0, 1] \<and>
   (\<forall>p a t. map node_next (nodes (fst ((\<lambda>p (a :: nat) (t :: heap \<times> nat). (fst t, snd t + a)) p a t)))
             = map node_next (nodes (fst t))) \<and>
   apply_list (\<lambda>p a t. (fst t, snd t + a)) 5 (Some 2) (link_heap, 0 :: nat) = Some (Inr (link_heap, 15)) \<and>
   apply_list log_visit (5 :: nat) (Some 2) (link_heap, [])
     = Some (Inr (link_heap, [(Some 2, 5), (Some 0, 5), (Some 1, 5)]))"
proof -
  have c: "chain (fst (link_heap, 0 :: nat)) (Some 2) [2, 0, 1]"
    by (simp add: link_heap_def mk_node_def)
  have v: "\<forall>p a t. map node_next (nodes (fst ((\<lambda>p (a :: nat) (t :: heap \<times> nat). (fst t, snd t + a)) p a t)))
             = map node_next (nodes (fst t))" by simp
  show ?thesis
    using apply_visits_each_node_once [OF c v, of 5] c by simp
qed

section \<open>Runs of insertions\<close>

subsection \<open>A fresh node\<close>

lemma chain_append_node:
  "chain h p as \<Longrightarrow> chain (h\<lparr>nodes := nodes h @ [c]\<rparr>) p as"
  by (induction as arbitrary: p) (simp_all add: nth_append)

lemma rd_song_append_node:
  "a < length (nodes h) \<Longrightarrow> rd_song (h\<lparr>nodes := nodes h @ [c]\<rparr>) (Some a) = rd_song h (Some a)"
  by (simp add: rd_song_def rd_node_def bnd_def nth_append split: option.split)

lemma clist_append_node:
  assumes "clist h p xs"
  shows "clist (h\<lparr>nodes := nodes h @ [c]\<rparr>) p xs"
proof -
  have "fst x < length (nodes h)" if "x \<in> set xs" for x
    using assms that chain_bound [of h p "map fst xs" "fst x"] by (simp add: clist_def)
  then have "list_all (\<lambda>x. rd_song (h\<lparr>nodes := nodes h @ [c]\<rparr>) (Some (fst x)) = Inr (snd x)) xs"
    using assms by (simp add: clist_def list_all_iff rd_song_append_node)
  with assms show ?thesis by (simp add: clist_def chain_append_node)
qed

lemma new_node_fresh:
  assumes "clist h list xs" and "s < length (songs h)"
  shows "\<exists>h1. new_node h (Some s) = Inr (h1, Some (length (nodes h))) \<and>
              clist h1 list xs \<and> songs h1 = songs h \<and>
              length (nodes h) < length (nodes h1) \<and>
              length (nodes h) \<notin> fst ` set xs \<and>
              rd_song h1 (Some (length (nodes h))) = Inr (songs h ! s) \<and>
              node_next (nodes h1 ! length (nodes h)) = None"
proof -
  let ?c = "\<lparr>node_song = Some s, node_next = None\<rparr>"
  let ?h1 = "h\<lparr>nodes := nodes h @ [?c]\<rparr>"
  have "new_node h (Some s) = Inr (?h1, Some (length (nodes h)))"
    by (simp add: new_node_def)
  moreover have "clist ?h1 list xs" using assms(1) by (rule clist_append_node)
  moreover have "length (nodes h) \<notin> fst ` set xs"
  proof
    assume "length (nodes h) \<in> fst ` set xs"
    then have "length (nodes h) \<in> set (map fst xs)" by simp
    with assms(1) have "length (nodes h) < length (nodes h)"
      unfolding clist_def by (blast dest: chain_bound)
    then show False by simp
  qed
  moreover have "rd_song ?h1 (Some (length (nodes h))) = Inr (songs h ! s)"
    using assms(2) by (simp add: rd_song_def rd_node_def bnd_def)
  ultimately show ?thesis by simp
qed

subsection \<open>One insertion keeps the order\<close>

lemma ins_inorder_cmp_sorted:
  assumes "sorted_wrt cmp_before (map snd xs)" and "ins_inorder n xs = Some ys"
  shows "sorted_wrt cmp_before (map snd ys)"
proof -
  consider (Nil) "xs = []" | (One) x where "xs = [x]" | (More) x r where "xs = x # r" "r \<noteq> []"
    by (cases xs rule: remdups_adj.cases) auto
  then show ?thesis
  proof cases
    case Nil
    with assms show ?thesis by auto
  next
    case One
    with assms show ?thesis by (auto simp: cmp_before_def split: if_splits)
  next
    case More
    show ?thesis
    proof (rule ins_inorder_sorted [of cmp_before n x r ys])
      show "sorted_wrt cmp_before (map snd (x # r))" using assms(1) More by simp
      show "ins_inorder n (x # r) = Some ys" using assms(2) More by simp
    qed (simp_all add: cmp_before_def More)
  qed
qed

lemma ins_inorder_doc_sorted:
  assumes "sorted_wrt doc_before (map snd xs)" and "tie_free xs (snd n # ss)"
    and "ins_inorder n xs = Some ys"
  shows "sorted_wrt doc_before (map snd ys) \<and> tie_free ys ss"
proof -
  consider (Nil) "xs = []" | (One) x where "xs = [x]" | (More) x r where "xs = x # r" "r \<noteq> []"
    by (cases xs rule: remdups_adj.cases) auto
  then show ?thesis
  proof cases
    case Nil
    with assms show ?thesis by (cases ss) auto
  next
    case One
    with assms show ?thesis by (auto simp: doc_before_def split: if_splits)
  next
    case More
    from assms(3) More obtain pre suf where "xs = pre @ suf" and ys: "ys = pre @ n # suf"
      using ins_inorder_split by blast
    with More have "2 \<le> length xs" by (cases r) simp_all
    then have "3 \<le> length ys" using ys \<open>xs = pre @ suf\<close> by simp
    then have tf: "tie_free ys ss" by (cases ys rule: remdups_adj.cases) simp_all
    have "sorted_wrt doc_before (map snd ys)"
    proof (rule ins_inorder_sorted [of doc_before n x r ys])
      show "sorted_wrt doc_before (map snd (x # r))" using assms(1) More by simp
      show "ins_inorder n (x # r) = Some ys" using assms(3) More by simp
      show "doc_before a c" if "doc_before a b" and "doc_before b c" for a b c
        using that by (rule doc_before_trans)
      show "doc_before a (snd n)"
        if "comparator (snd n) = comparator a" and "strcmp (song (snd n)) (song a) \<le> 0" for a
        using that strcmp_swap [of "song a" "song (snd n)"] by (simp add: doc_before_def)
    qed (auto simp add: doc_before_def More)
    with tf show ?thesis by simp
  qed
qed

lemma run_ok_step:
  assumes "ins_inorder (n, ns) xs = Some ys" and "run_ok ys ss r"
  shows "run_ok xs (ns # ss) r"
proof (cases r)
  case (Inl e)
  with assms(2) show ?thesis by (simp add: run_ok_def)
next
  case (Inr p)
  obtain h1 list1 where p: "p = (h1, list1)" by (cases p)
  from assms(2) Inr p obtain zs where zs: "clist h1 list1 zs"
    and m: "mset (map snd zs) = mset (map snd ys) + mset ss"
    and c: "sorted_wrt cmp_before (map snd ys) \<longrightarrow> sorted_wrt cmp_before (map snd zs)"
    and d: "sorted_wrt doc_before (map snd ys) \<longrightarrow> tie_free ys ss
              \<longrightarrow> sorted_wrt doc_before (map snd zs)"
    by (auto simp: run_ok_def)
  have "mset ys = add_mset (n, ns) (mset xs)" using assms(1) by (rule ins_inorder_mset)
  then have "mset (map snd ys) = add_mset ns (mset (map snd xs))"
    by (metis fst_conv image_mset_add_mset mset_map snd_conv)
  with m have m': "mset (map snd zs) = mset (map snd xs) + mset (ns # ss)" by simp
  have c': "sorted_wrt cmp_before (map snd zs)" if "sorted_wrt cmp_before (map snd xs)"
    using c ins_inorder_cmp_sorted [OF that assms(1)] by simp
  have d': "sorted_wrt doc_before (map snd zs)"
    if "sorted_wrt doc_before (map snd xs)" and "tie_free xs (ns # ss)"
    using d ins_inorder_doc_sorted [of xs "(n, ns)" ss ys] that assms(1) by simp
  show ?thesis
    unfolding run_ok_def Inr p using zs m' c' d' by auto
qed

lemma add_inorder_all_run_ok:
  assumes "clist h list xs" and "\<forall>s\<in>set sas. s < length (songs h)"
  shows "\<exists>r. add_inorder_all h list (map Some sas) = Some r \<and>
             run_ok xs (map ((!) (songs h)) sas) r"
  using assms
proof (induction sas arbitrary: h list xs)
  case Nil
  then show ?case by (auto simp: run_ok_def)
next
  case (Cons s sas)
  let ?n = "length (nodes h)" and ?ns = "songs h ! s"
  from Cons.prems have sb: "s < length (songs h)" by simp
  from new_node_fresh [OF Cons.prems(1) sb] obtain h1 where
    nn: "new_node h (Some s) = Inr (h1, Some ?n)" and cl1: "clist h1 list xs"
    and so1: "songs h1 = songs h" and nb: "?n < length (nodes h1)"
    and fresh: "?n \<notin> fst ` set xs" and ns: "rd_song h1 (Some ?n) = Inr ?ns"
    and nx: "node_next (nodes h1 ! ?n) = None"
    by blast
  have rf: "refines h1 (add_inorder h1 list (Some ?n)) (ins_inorder (?n, ?ns) xs)"
    by (rule add_inorder_refines [OF cl1 nb fresh ns nx])
  show ?case
  proof (cases "ins_inorder (?n, ?ns) xs")
    case None
    with rf have "add_inorder h1 list (Some ?n) = Some (Inl NullDeref)"
      by (simp add: refines_def)
    with nn have "add_inorder_all h list (map Some (s # sas)) = Some (Inl NullDeref)" by simp
    then show ?thesis by (simp add: run_ok_def)
  next
    case (Some ys)
    with rf obtain h2 list2 where call: "add_inorder h1 list (Some ?n) = Some (Inr (h2, list2))"
      and cl2: "clist h2 list2 ys" and so2: "songs h2 = songs h1"
      by (auto simp: refines_def)
    have "\<forall>s\<in>set sas. s < length (songs h2)" using Cons.prems(2) so1 so2 by simp
    from Cons.IH [OF cl2 this] obtain r where
      r: "add_inorder_all h2 list2 (map Some sas) = Some r"
      and ok: "run_ok ys (map ((!) (songs h2)) sas) r" by blast
    have "add_inorder_all h list (map Some (s # sas)) = Some r"
      using nn call r by simp
    moreover have "run_ok xs (map ((!) (songs h)) (s # sas)) r"
      using run_ok_step [OF Some] ok so1 so2 by simp
    ultimately show ?thesis by blast
  qed
qed

lemmas run_simps =
  new_node_def add_inorder_def add_inorder_general_def add_inorder_single_def link_between_def
  scan_lt.simps scan_eq.simps scan_eq_head.simps returns_songs_def

section \<open>The order kept by add_inorder\<close>

text \<open>
  Claim C1, as stated, fails: inserting comparators 1, 2, 1 with titles A, X, B yields
  X, B, A, where the two songs of comparator 1 are in descending title order.
\<close>

theorem add_inorder_title_ascending_counterexample:
  "returns_songs (add_inorder_all mixed_heap None [Some 0, Some 1, Some 2])
     [mk_song ''b'' ''X'' 2, mk_song ''c'' ''B'' 1, mk_song ''a'' ''A'' 1] \<and>
   \<not> sorted_wrt spec_before [mk_song ''b'' ''X'' 2, mk_song ''c'' ''B'' 1, mk_song ''a'' ''A'' 1]"
  by (simp add: mixed_heap_def run_simps heap_simps spec_before_def)

text \<open>
  Claim C1, amended. A run of \<^verbatim>\<open>add_inorder\<close> insertions of fresh nodes for valid songs,
  from the empty list, always ends: with the null dereference of the equal-to-head loop, or
  with a chain that holds exactly the inserted songs, sorted by comparator descending.
  Among equal comparators the titles are then in descending order (reverse alphabetical,
  as the comment heading the function says), provided the first two songs inserted differ
  in comparator, so that the one-node branch decides no tie on the artist.
\<close>

theorem add_inorder_all_sorted:
  assumes "\<forall>s\<in>set sas. s < length (songs h0)"
  shows "\<exists>r. add_inorder_all h0 None (map Some sas) = Some r \<and>
             (\<forall>e. r = Inl e \<longrightarrow> e = NullDeref) \<and>
             (\<forall>h list. r = Inr (h, list) \<longrightarrow>
                (\<exists>xs. clist h list xs \<and>
                      mset (map snd xs) = mset (map ((!) (songs h0)) sas) \<and>
                      sorted_wrt cmp_before (map snd xs) \<and>
                      (first_two_differ (map ((!) (songs h0)) sas)
                         \<longrightarrow> sorted_wrt doc_before (map snd xs))))"
proof -
  have "clist h0 None []" by (simp add: clist_Nil)
  from add_inorder_all_run_ok [OF this assms] obtain r where
    r: "add_inorder_all h0 None (map Some sas) = Some r"
    and ok: "run_ok [] (map ((!) (songs h0)) sas) r" by blast
  have "e = NullDeref" if "r = Inl e" for e
    using ok that by (simp add: run_ok_def)
  moreover have "\<exists>xs. clist h list xs \<and>
                      mset (map snd xs) = mset (map ((!) (songs h0)) sas) \<and>
                      sorted_wrt cmp_before (map snd xs) \<and>
                      (first_two_differ (map ((!) (songs h0)) sas)
                         \<longrightarrow> sorted_wrt doc_before (map snd xs))"
    if "r = Inr (h, list)" for h list
    using ok that by (simp add: run_ok_def)
  ultimately show ?thesis using r by blast
qed

theorem add_inorder_all_sorted_witness:
  "length (songs run_heap) = 4 \<and>
   first_two_differ (map ((!) (songs run_heap)) [0, 1, 2, 3]) \<and>
   (\<exists>h list xs. add_inorder_all run_heap None (map Some [0, 1, 2, 3]) = Some (Inr (h, list)) \<and>
      clist h list xs \<and> sorted_wrt cmp_before (map snd xs) \<and> sorted_wrt doc_before (map snd xs))"
proof -
  have v: "\<forall>s\<in>set [0, 1, 2, 3]. s < length (songs run_heap)" by (simp add: run_heap_def)
  have d: "first_two_differ (map ((!) (songs run_heap)) [0, 1, 2, 3])"
    by (simp add: run_heap_def mk_song_def)
  have e: "returns_songs (add_inorder_all run_heap None (map Some [0, 1, 2, 3]))
             [mk_song ''c'' ''C'' 2, mk_song ''a'' ''A'' 2, mk_song ''d'' ''D'' 1, mk_song ''b'' ''B'' 1]"
    by (simp add: run_heap_def run_simps heap_simps)
  from add_inorder_all_sorted [OF v] obtain r where
    r: "add_inorder_all run_heap None (map Some [0, 1, 2, 3]) = Some r"
    and ok: "\<forall>h list. r = Inr (h, list) \<longrightarrow>
                (\<exists>xs. clist h list xs \<and>
                      mset (map snd xs) = mset (map ((!) (songs run_heap)) [0, 1, 2, 3]) \<and>
                      sorted_wrt cmp_before (map snd xs) \<and>
                      (first_two_differ (map ((!) (songs run_heap)) [0, 1, 2, 3])
                         \<longrightarrow> sorted_wrt doc_before (map snd xs)))"
    by blast
  from e r obtain h list where "r = Inr (h, list)"
    by (cases r) (auto simp: returns_songs_def)
  moreover have "length (songs run_heap) = 4" by (simp add: run_heap_def)
  ultimately show ?thesis using r ok d by blast
qed

text \<open>
  Claim C2 fails on the code. From the empty list, insert three songs of comparator 1 with
  titles C, B, A (artists a, b, c): the first two calls return the chain C, B, and the third
  call reads \<^verbatim>\<open>cur->song\<close> with \<^verbatim>\<open>cur == NULL\<close> in the loop of line 131, which lacks the
  \<^verbatim>\<open>cur != NULL\<close> test that the loops of lines 139 and 143 have.
\<close>

theorem add_inorder_null_dereference:
  "returns_songs (add_inorder_all tie_heap None [Some 0, Some 1])
     [mk_song ''a'' ''C'' 1, mk_song ''b'' ''B'' 1] \<and>
   add_inorder_all tie_heap None [Some 0, Some 1, Some 2] = Some (Inl NullDeref)"
  by (simp add: tie_heap_def run_simps heap_simps)

text \<open>
  Claim C3, as stated, fails: the run does not end with the order 8, 5, A, B.
\<close>

theorem add_inorder_scenario_counterexample:
  "\<not> returns_songs
       (add_inorder_all (scenario_heap ''p'' ''q'' ''r'' ''s'' ''T'' ''U'') None
          [Some 0, Some 1, Some 2, Some 3])
       [mk_song ''r'' ''U'' 8, mk_song ''p'' ''T'' 5, mk_song ''s'' ''A'' 3, mk_song ''q'' ''B'' 3]"
  by (simp add: scenario_heap_def run_simps heap_simps)

text \<open>
  Claim C3, amended. Inserting comparators 5, 3, 8, 3 in this order, the two songs of
  comparator 3 having titles B and A, yields the order 8, 5, B, A, whatever the artists and
  the other two titles.
\<close>

theorem add_inorder_scenario:
  "returns_songs
     (add_inorder_all (scenario_heap a1 a2 a3 a4 t1 t3) None [Some 0, Some 1, Some 2, Some 3])
     [mk_song a3 t3 8, mk_song a1 t1 5, mk_song a2 ''B'' 3, mk_song a4 ''A'' 3]"
  by (simp add: scenario_heap_def run_simps heap_simps)

text \<open>
  Claim C4, as stated, fails: into the chain A, B of comparator 1, in ascending title
  order, the song C of comparator 1 is inserted at the head, and C, A, B is not in
  ascending title order.
\<close>

theorem add_inorder_equal_comparators_counterexample:
  "song_chain asc_heap (Some 0) [mk_song ''a'' ''A'' 1, mk_song ''a'' ''B'' 1] \<and>
   sorted_wrt spec_before [mk_song ''a'' ''A'' 1, mk_song ''a'' ''B'' 1] \<and>
   returns_songs (add_inorder asc_heap (Some 0) (Some 2))
     [mk_song ''a'' ''C'' 1, mk_song ''a'' ''A'' 1, mk_song ''a'' ''B'' 1] \<and>
   \<not> sorted_wrt spec_before [mk_song ''a'' ''C'' 1, mk_song ''a'' ''A'' 1, mk_song ''a'' ''B'' 1]"
  by (simp add: asc_heap_def run_simps heap_simps spec_before_def)

text \<open>
  Claim C4, amended. Let the list hold two nodes or more, all of the new node's comparator,
  with titles in descending order, and let the new title be no smaller than the last
  title. Then \<^verbatim>\<open>add_inorder\<close> returns, the new node is inserted between two parts of the
  old chain, and the titles of the new chain are in descending order: it is sorted by
  comparator descending, then title descending.
\<close>

theorem add_inorder_equal_comparators:
  assumes cl: "clist h list xs" and len: "2 \<le> length xs"
    and eq: "\<forall>x\<in>set xs. comparator (snd x) = comparator ns"
    and srt: "sorted_wrt title_desc (map snd xs)"
    and nb: "n < length (nodes h)" and fresh: "n \<notin> fst ` set xs"
    and ns: "rd_song h (Some n) = Inr ns"
    and lst: "title_desc ns (snd (last xs))"
  shows "\<exists>h1 list1 pre suf.
           add_inorder h list (Some n) = Some (Inr (h1, list1)) \<and>
           xs = pre @ suf \<and>
           clist h1 list1 (pre @ (n, ns) # suf) \<and>
           sorted_wrt title_desc (map snd (pre @ (n, ns) # suf)) \<and>
           sorted_wrt doc_before (map snd (pre @ (n, ns) # suf))"
proof -
  from len obtain x y ys where xs0: "xs = x # y # ys"
    by (cases xs rule: remdups_adj.cases) auto
  define r where "r = y # ys"
  have xs: "xs = x # r" and r: "r \<noteq> []" by (simp_all add: r_def xs0)
  from cl xs0 have "fst x < length (nodes h)" and "node_next (nodes h ! fst x) = Some (fst y)"
    and "list = Some (fst x)"
    by (simp_all add: clist_Cons)
  then have call: "add_inorder h list (Some n) = add_inorder_general h list (Some n) (Some (fst y))"
    by (simp add: add_inorder_def rd_next_Some)
  have rf: "refines h (add_inorder h list (Some n)) (ins_inorder (n, ns) xs)"
    unfolding call xs0
    using cl fresh unfolding xs0 by (rule add_inorder_general_refines [OF _ nb _ ns])
  have "last xs \<in> set r" using xs r last_in_set [of r] by simp
  moreover have "\<not> eq_new ns (last xs)" using lst by (simp add: eq_new_def title_desc_def)
  ultimately have "dropWhile (eq_new ns) r \<noteq> []"
    by (metis dropWhile_eq_Nil_conv)
  then have "ins_inorder (n, ns) xs \<noteq> None"
    unfolding xs ins_inorder_general [OF r] by (simp del: dropWhile_eq_Nil_conv)
  then obtain zs where zs: "ins_inorder (n, ns) xs = Some zs" by blast
  with rf obtain h1 list1 where ret: "add_inorder h list (Some n) = Some (Inr (h1, list1))"
    and cl1: "clist h1 list1 zs" by (auto simp: refines_def)
  from zs obtain pre suf where split: "xs = pre @ suf" and zs': "zs = pre @ (n, ns) # suf"
    using ins_inorder_split by blast
  have "sorted_wrt doc_before (map snd xs)"
  proof (rule sorted_wrt_mono_rel [OF _ srt])
    fix a b assume "a \<in> set (map snd xs)" and "b \<in> set (map snd xs)" and t: "title_desc a b"
    with eq have "comparator a = comparator ns" and "comparator b = comparator ns" by auto
    with t show "doc_before a b" by (simp add: doc_before_def title_desc_def)
  qed
  then have doc: "sorted_wrt doc_before (map snd zs)"
    using ins_inorder_doc_sorted [of xs "(n, ns)" "[]" zs] zs xs0 by simp
  have eqz: "\<forall>z\<in>set (map snd zs). comparator z = comparator ns"
    using eq split zs' by auto
  have "sorted_wrt title_desc (map snd zs)"
  proof (rule sorted_wrt_mono_rel [OF _ doc])
    fix a b assume "a \<in> set (map snd zs)" and "b \<in> set (map snd zs)" and d: "doc_before a b"
    with eqz have "comparator a = comparator ns" and "comparator b = comparator ns" by auto
    with d show "title_desc a b" by (simp add: doc_before_def title_desc_def)
  qed
  with ret cl1 split zs' doc show ?thesis by blast
qed

theorem add_inorder_equal_comparators_witness:
  "clist desc_heap (Some 0) [(0, mk_song ''a'' ''C'' 1), (1, mk_song ''a'' ''A'' 1)] \<and>
   sorted_wrt title_desc (map snd [(0 :: nat, mk_song ''a'' ''C'' 1), (1, mk_song ''a'' ''A'' 1)]) \<and>
   rd_song desc_heap (Some 2) = Inr (mk_song ''a'' ''B'' 1) \<and>
   title_desc (mk_song ''a'' ''B'' 1) (mk_song ''a'' ''A'' 1) \<and>
   (\<exists>h1. add_inorder desc_heap (Some 0) (Some 2) = Some (Inr (h1, Some 0)) \<and>
      clist h1 (Some 0)
        [(0, mk_song ''a'' ''C'' 1), (2, mk_song ''a'' ''B'' 1), (1, mk_song ''a'' ''A'' 1)])"
proof -
  let ?xs = "[(0 :: nat, mk_song ''a'' ''C'' 1), (1, mk_song ''a'' ''A'' 1)]"
  let ?ns = "mk_song ''a'' ''B'' 1"
  have c: "clist desc_heap (Some 0) ?xs" by (simp add: clist_def desc_heap_def heap_simps)
  have l: "2 \<le> length ?xs" by simp
  have e: "\<forall>x\<in>set ?xs. comparator (snd x) = comparator ?ns" by (simp add: mk_song_def)
  have s: "sorted_wrt title_desc (map snd ?xs)" by (simp add: title_desc_def mk_song_def)
  have b: "2 < length (nodes desc_heap)" by (simp add: desc_heap_def)
  have f: "2 \<notin> fst ` set ?xs" by simp
  have r: "rd_song desc_heap (Some 2) = Inr ?ns" by (simp add: desc_heap_def heap_simps)
  have t': "title_desc ?ns (mk_song ''a'' ''A'' 1)" by (simp add: title_desc_def mk_song_def)
  then have t: "title_desc ?ns (snd (last ?xs))" by simp
  have v: "add_inorder desc_heap (Some 0) (Some 2) =
             Some (Inr (set_next (set_next desc_heap 0 (Some 2)) 2 (Some 1), Some 0))"
    by (simp add: desc_heap_def run_simps heap_simps)
  have w: "clist (set_next (set_next desc_heap 0 (Some 2)) 2 (Some 1)) (Some 0)
             [(0, mk_song ''a'' ''C'' 1), (2, ?ns), (1, mk_song ''a'' ''A'' 1)]"
    by (simp add: clist_def desc_heap_def heap_simps)
  from add_inorder_equal_comparators [OF c l e s b f r t] obtain h1 list1 where
    u: "add_inorder desc_heap (Some 0) (Some 2) = Some (Inr (h1, list1))" by blast
  with v have "h1 = set_next (set_next desc_heap 0 (Some 2)) 2 (Some 1)" and "list1 = Some 0"
    by simp_all
  with u w have "\<exists>h1. add_inorder desc_heap (Some 0) (Some 2) = Some (Inr (h1, Some 0)) \<and>
      clist h1 (Some 0)
        [(0, mk_song ''a'' ''C'' 1), (2, mk_song ''a'' ''B'' 1), (1, mk_song ''a'' ''A'' 1)]"
    by blast
  with c s r t' show ?thesis by blast
qed

end
